theory Spec2Isabelle
  imports Main "HOL-Library.Sublist"
begin

section \<open>Data model\<close>

text \<open>
  The program under verification is \<^verbatim>\<open>src/github_branch_manager.py\<close>: a manager object
  holding a cutoff date and a dry-run flag, a staleness filter
  (\<^verbatim>\<open>get_prs_branches_to_be_deleted\<close>) and two drivers
  (\<^verbatim>\<open>label_stale_branches\<close>, \<^verbatim>\<open>delete_stale_branches\<close>).  All of its effects go
  through the remote repository gateway and the logger, so the state that is threaded
  through the model is the gateway's world, the sequence of gateway calls issued so far
  and the sequence of log records emitted so far.
\<close>

subsection \<open>Dates\<close>

text \<open>
  Python's \<^verbatim>\<open>date\<close> is a proleptic Gregorian day number (\<^verbatim>\<open>toordinal\<close>); a
  \<^verbatim>\<open>datetime\<close> adds a time of day, of which only whole hours occur here.  The value
  \<^verbatim>\<open>date.today() - relativedelta(hours=n)\<close> is a \<^verbatim>\<open>date\<close> when the normalised delta
  has no time part and a \<^verbatim>\<open>datetime\<close> otherwise.
\<close>

datatype py_date = Date int | DateTime int int

text \<open>The instant a date value denotes, in whole hours since day number 0, 00:00.\<close>

fun hours_of :: "py_date \<Rightarrow> int" where
  "hours_of (Date d) = 24 * d"
| "hours_of (DateTime d h) = 24 * d + h"

fun ordinal :: "py_date \<Rightarrow> int" where
  "ordinal (Date d) = d"
| "ordinal (DateTime d h) = d"

record relativedelta =
  rd_days :: int
  rd_hours :: int

text \<open>
  \<^verbatim>\<open>relativedelta(days=d, hours=h)\<close>: the constructor normalises (\<^verbatim>\<open>_fix\<close>) an hour
  count beyond 23 in absolute value into days, sign-aware:
  \<^verbatim>\<open>s = sign(hours); div, mod = divmod(hours * s, 24); hours = mod * s; days += div * s\<close>.
\<close>

definition mk_relativedelta :: "int \<Rightarrow> int \<Rightarrow> relativedelta" where
  "mk_relativedelta d h =
     (if abs h > 23
      then (let s = sgn h; dv = (h * s) div 24; md = (h * s) mod 24
            in \<lparr>rd_days = d + dv * s, rd_hours = md * s\<rparr>)
      else \<lparr>rd_days = d, rd_hours = h\<rparr>)"

definition rd_neg :: "relativedelta \<Rightarrow> relativedelta" where
  "rd_neg r = mk_relativedelta (- rd_days r) (- rd_hours r)"

definition has_time :: "relativedelta \<Rightarrow> bool" where
  "has_time r = (rd_hours r \<noteq> 0)"

text \<open>
  \<^verbatim>\<open>date.min\<close> is day number 1 and \<^verbatim>\<open>date.max\<close> (9999-12-31) is day number 3652059; a
  result outside raises \<^verbatim>\<open>OverflowError\<close>.
\<close>

definition max_ordinal :: int where
  "max_ordinal = 3652059"

datatype error = BadCredentials | UnknownObject | OverflowError

text \<open>
  \<^verbatim>\<open>a_date + delta\<close>: a delta with a time part first promotes the date to midnight of
  that day as a \<^verbatim>\<open>datetime\<close>, then adds days and hours; the sum is renormalised to a
  day number and an hour of the day.
\<close>

definition date_add :: "int \<Rightarrow> relativedelta \<Rightarrow> error + py_date" where
  "date_add today r =
     (if has_time r
      then (let t = 24 * (today + rd_days r) + rd_hours r
            in if t div 24 < 1 \<or> max_ordinal < t div 24 then Inl OverflowError
               else Inr (DateTime (t div 24) (t mod 24)))
      else (let d = today + rd_days r
            in if d < 1 \<or> max_ordinal < d then Inl OverflowError else Inr (Date d)))"

text \<open>\<^verbatim>\<open>a_date - delta\<close> is \<^verbatim>\<open>delta.__rsub__(a_date)\<close>, that is \<^verbatim>\<open>a_date + (-delta)\<close>.\<close>

definition date_sub :: "int \<Rightarrow> relativedelta \<Rightarrow> error + py_date" where
  "date_sub today r = date_add today (rd_neg r)"

subsection \<open>The remote repository gateway\<close>

text \<open>
  An issue or pull request as the gateway stores it.  A pull request is an issue with a
  head branch; a plain issue has none.  Times are whole hours on the scale of
  \<^const>\<open>hours_of\<close>.
\<close>

record issue =
  issue_repo :: string
  issue_number :: nat
  created_at :: int
  is_open :: bool
  head_ref :: "string option"
  labels :: "string list"

text \<open>The pull-request object the client hands out (\<^verbatim>\<open>PullRequest\<close>).\<close>

record pull_request =
  pr_repo :: string
  pr_number :: nat
  pr_created_at :: int
  pr_open :: bool
  pr_head_ref :: string

text \<open>A repository handle as listed for the organization.\<close>

record repository =
  repo_name :: string
  full_name :: string

text \<open>A resolved git reference (\<^verbatim>\<open>GitRef\<close>): repository, reference path, commit id.\<close>

record git_ref =
  ref_repo :: string
  ref_path :: string
  ref_sha :: string

record world =
  api_token :: string
  org_login :: string
  org_repos :: "repository list"
  git_refs :: "git_ref list"
  issues :: "issue list"

text \<open>
  The search query.  The source builds the query as a string; the model keeps the
  qualifiers of that string as a conjunction of terms:
  \<^verbatim>\<open>repo:R\<close>, \<^verbatim>\<open>is:open\<close>, \<^verbatim>\<open>is:issue\<close>, \<^verbatim>\<open>is:pull-request\<close>, \<^verbatim>\<open>created:<D\<close>,
  \<^verbatim>\<open>label:L\<close> and the parenthesised \<^verbatim>\<open>OR\<close>.
\<close>

datatype qualifier =
    Repo string
  | IsOpen
  | IsIssue
  | IsPullRequest
  | CreatedBefore py_date
  | Label string
  | Or qualifier qualifier

datatype api_call =
    GetOrganization string
  | GetRepos
  | GetBranches string
  | SearchIssues "qualifier list"
  | AsPullRequest string nat
  | GetPull string nat
  | SetLabels string nat "string list"
  | GetGitRef string string
  | DeleteRef string string

text \<open>
  One constructor per \<^verbatim>\<open>log.info\<close> call site of the source, carrying the arguments
  of its format string.
\<close>

datatype log_record =
    LogInitialized string int bool
  | LogProcessing string
  | LogTotalBranches string nat
  | LogGetting string
  | LogApplying nat string
  | LogBranchesLabeled string "string list"
  | LogDeleting py_date string
  | LogBranch string string

record state =
  gh :: world
  calls :: "api_call list"
  logs :: "log_record list"

definition log_info :: "log_record \<Rightarrow> state \<Rightarrow> state" where
  "log_info r s = s\<lparr>logs := logs s @ [r]\<rparr>"

definition called :: "api_call \<Rightarrow> state \<Rightarrow> state" where
  "called c s = s\<lparr>calls := calls s @ [c]\<rparr>"

text \<open>
  Modelled from the spec: the remote repository gateway (the PyGithub client and the
  service behind it) is an external collaborator and is not part of the source.  The
  definitions from here to \<open>delete_ref\<close> follow the gateway contract of the
  specification: organization lookup by name, repository listing, issue search by a
  structured query (\<^verbatim>\<open>repo:\<close>, \<^verbatim>\<open>is:open\<close>, \<^verbatim>\<open>is:issue\<close>/\<^verbatim>\<open>is:pull-request\<close>,
  \<^verbatim>\<open>created:<date\<close>, \<^verbatim>\<open>label:<name>\<close>, combined with OR/AND), pull request lookup by
  number, label-set mutation on a pull request, branch-count retrieval, git reference
  lookup by \<^verbatim>\<open>heads/<name>\<close> and git reference deletion; a lookup of an object that
  does not exist fails with the client's not-found error, an invalid token with its
  bad-credentials error.
\<close>

fun matches :: "qualifier \<Rightarrow> issue \<Rightarrow> bool" where
  "matches (Repo r) i = (issue_repo i = r)"
| "matches IsOpen i = is_open i"
| "matches IsIssue i = (head_ref i = None)"
| "matches IsPullRequest i = (head_ref i \<noteq> None)"
| "matches (CreatedBefore d) i = (created_at i < hours_of d)"
| "matches (Label l) i = (l \<in> set (labels i))"
| "matches (Or a b) i = (matches a i \<or> matches b i)"

definition get_organization :: "string \<Rightarrow> string \<Rightarrow> state \<Rightarrow> (error + string) \<times> state" where
  "get_organization tok name s =
     (let s' = called (GetOrganization name) s
      in if tok \<noteq> api_token (gh s) then (Inl BadCredentials, s')
         else if name \<noteq> org_login (gh s) then (Inl UnknownObject, s')
         else (Inr name, s'))"

definition get_repos :: "state \<Rightarrow> repository list \<times> state" where
  "get_repos s = (org_repos (gh s), called GetRepos s)"

definition is_branch_of :: "string \<Rightarrow> git_ref \<Rightarrow> bool" where
  "is_branch_of fn r = (ref_repo r = fn \<and> take 6 (ref_path r) = ''heads/'')"

definition get_branches_totalCount :: "repository \<Rightarrow> state \<Rightarrow> nat \<times> state" where
  "get_branches_totalCount repo s =
     (length (filter (is_branch_of (full_name repo)) (git_refs (gh s))),
      called (GetBranches (full_name repo)) s)"

text \<open>The issues a query selects, in the order the gateway lists them.\<close>

definition matching :: "qualifier list \<Rightarrow> world \<Rightarrow> issue list" where
  "matching q w = filter (\<lambda>i. list_all (\<lambda>c. matches c i) q) (issues w)"

definition search_issues :: "qualifier list \<Rightarrow> state \<Rightarrow> issue list \<times> state" where
  "search_issues q s = (matching q (gh s), called (SearchIssues q) s)"

text \<open>The address of an issue: repository and number (the object's URL).\<close>

definition issue_url :: "issue \<Rightarrow> string \<times> nat" where
  "issue_url i = (issue_repo i, issue_number i)"

definition pr_url :: "pull_request \<Rightarrow> string \<times> nat" where
  "pr_url p = (pr_repo p, pr_number p)"

definition pull_of :: "issue \<Rightarrow> string \<Rightarrow> pull_request" where
  "pull_of i b = \<lparr>pr_repo = issue_repo i, pr_number = issue_number i,
                  pr_created_at = created_at i, pr_open = is_open i, pr_head_ref = b\<rparr>"

definition fetch_pull :: "world \<Rightarrow> string \<times> nat \<Rightarrow> error + pull_request" where
  "fetch_pull w u =
     (case find (\<lambda>i. issue_url i = u) (issues w) of
        None \<Rightarrow> Inl UnknownObject
      | Some i \<Rightarrow> (case head_ref i of
                     None \<Rightarrow> Inl UnknownObject
                   | Some b \<Rightarrow> Inr (pull_of i b)))"

definition as_pull_request :: "issue \<Rightarrow> state \<Rightarrow> (error + pull_request) \<times> state" where
  "as_pull_request x s =
     (fetch_pull (gh s) (issue_url x), called (AsPullRequest (issue_repo x) (issue_number x)) s)"

definition get_pull :: "repository \<Rightarrow> nat \<Rightarrow> state \<Rightarrow> (error + pull_request) \<times> state" where
  "get_pull repo n s =
     (fetch_pull (gh s) (full_name repo, n), called (GetPull (full_name repo) n) s)"

text \<open>\<^verbatim>\<open>set_labels\<close> is a PUT of the label list: it replaces the labels of the issue.\<close>

definition put_labels :: "string \<times> nat \<Rightarrow> string list \<Rightarrow> world \<Rightarrow> world" where
  "put_labels u ls w =
     w\<lparr>issues := map (\<lambda>i. if issue_url i = u then i\<lparr>labels := ls\<rparr> else i) (issues w)\<rparr>"

definition set_labels :: "pull_request \<Rightarrow> string list \<Rightarrow> state \<Rightarrow> (error + unit) \<times> state" where
  "set_labels p ls s =
     (let s' = called (SetLabels (pr_repo p) (pr_number p) ls) s
      in if pr_url p \<in> issue_url ` set (issues (gh s))
         then (Inr (), s'\<lparr>gh := put_labels (pr_url p) ls (gh s)\<rparr>)
         else (Inl UnknownObject, s'))"

definition get_git_ref :: "repository \<Rightarrow> string \<Rightarrow> state \<Rightarrow> (error + git_ref) \<times> state" where
  "get_git_ref repo path s =
     (case find (\<lambda>r. ref_repo r = full_name repo \<and> ref_path r = path) (git_refs (gh s)) of
        None \<Rightarrow> (Inl UnknownObject, called (GetGitRef (full_name repo) path) s)
      | Some r \<Rightarrow> (Inr r, called (GetGitRef (full_name repo) path) s))"

definition remove_ref :: "git_ref \<Rightarrow> world \<Rightarrow> world" where
  "remove_ref b w =
     w\<lparr>git_refs := filter (\<lambda>r. \<not> (ref_repo r = ref_repo b \<and> ref_path r = ref_path b))
                          (git_refs w)\<rparr>"

definition delete_ref :: "git_ref \<Rightarrow> state \<Rightarrow> (error + unit) \<times> state" where
  "delete_ref b s =
     (let s' = called (DeleteRef (ref_repo b) (ref_path b)) s
      in if list_ex (\<lambda>r. ref_repo r = ref_repo b \<and> ref_path r = ref_path b) (git_refs (gh s))
         then (Inr (), s'\<lparr>gh := remove_ref b (gh s)\<rparr>)
         else (Inl UnknownObject, s'))"

text \<open>
  Modelled from the spec: equality of two issue objects of the client is entity
  identity, the comparison of their addresses, not of the data they carry.
\<close>

definition issue_eq :: "issue \<Rightarrow> issue \<Rightarrow> bool" where
  "issue_eq a b = (issue_url a = issue_url b)"

text \<open>Python's \<^verbatim>\<open>x in ys\<close> on a list: some element equals \<open>x\<close>.\<close>

definition py_in :: "issue \<Rightarrow> issue list \<Rightarrow> bool" where
  "py_in x ys = list_ex (issue_eq x) ys"

section \<open>The manager\<close>

record manager =
  github_token :: string
  org :: string
  end_date :: py_date
  dry_run :: bool

text \<open>
  \<^verbatim>\<open>GithubBranchManager.__init__\<close>.  \<open>today\<close> is the day number \<^verbatim>\<open>date.today()\<close> reads
  from the clock.
\<close>

definition init :: "string \<Rightarrow> string \<Rightarrow> int \<Rightarrow> bool \<Rightarrow> int \<Rightarrow> state \<Rightarrow> (error + manager) \<times> state" where
  "init tok org_name date_period dry today s =
     (case get_organization tok org_name s of
        (Inl e, s1) \<Rightarrow> (Inl e, s1)
      | (Inr org_handle, s1) \<Rightarrow>
          (case date_sub today (mk_relativedelta 0 date_period) of
             Inl e \<Rightarrow> (Inl e, s1)
           | Inr d \<Rightarrow>
               (Inr \<lparr>github_token = tok, org = org_handle, end_date = d, dry_run = dry\<rparr>,
                log_info (LogInitialized org_name date_period dry) s1)))"

subsection \<open>The staleness filter\<close>

definition protective_label :: string where
  "protective_label = ''do-not-delete''"

definition query_older_issues :: "manager \<Rightarrow> repository \<Rightarrow> qualifier list" where
  "query_older_issues m repo =
     [Repo (full_name repo), IsOpen, Or IsIssue IsPullRequest, CreatedBefore (end_date m)]"

definition query_issues_labelled_do_not_delete :: "manager \<Rightarrow> repository \<Rightarrow> qualifier list" where
  "query_issues_labelled_do_not_delete m repo =
     [Repo (full_name repo), IsOpen, CreatedBefore (end_date m), Label protective_label]"

text \<open>Line 43: \<^verbatim>\<open>[x for x in issues_older_than_year if x not in do_not_del_issues]\<close>.\<close>

definition issues_to_be_removed :: "issue list \<Rightarrow> issue list \<Rightarrow> issue list" where
  "issues_to_be_removed issues_older_than_year do_not_del_issues =
     filter (\<lambda>x. \<not> py_in x do_not_del_issues) issues_older_than_year"

text \<open>
  The loop of lines 46 to 50, with the two result lists as accumulators.  A failing
  conversion raises, and the exception leaves the loop and the function.
\<close>

fun collect_branches ::
  "issue list \<Rightarrow> pull_request list \<Rightarrow> string list \<Rightarrow> state
     \<Rightarrow> (error + pull_request list \<times> string list) \<times> state" where
  "collect_branches [] prs_to_label branches_to_delete s =
     (Inr (prs_to_label, branches_to_delete), s)"
| "collect_branches (prs # rest) prs_to_label branches_to_delete s =
     (case as_pull_request prs s of
        (Inl e, s1) \<Rightarrow> (Inl e, s1)
      | (Inr pull_req_name, s1) \<Rightarrow>
          collect_branches rest (prs_to_label @ [pull_req_name])
            (branches_to_delete @ [pr_head_ref pull_req_name]) s1)"

definition get_prs_branches_to_be_deleted ::
  "manager \<Rightarrow> repository \<Rightarrow> state \<Rightarrow> (error + pull_request list \<times> string list) \<times> state" where
  "get_prs_branches_to_be_deleted m repo s =
     (case search_issues (query_older_issues m repo) s of
        (issues_older_than_year, s1) \<Rightarrow>
     (case search_issues (query_issues_labelled_do_not_delete m repo) s1 of
        (do_not_del_issues, s2) \<Rightarrow>
          collect_branches (issues_to_be_removed issues_older_than_year do_not_del_issues) [] []
            (log_info (LogGetting (repo_name repo)) s2)))"

subsection \<open>The label driver\<close>

definition pending_label :: string where
  "pending_label = ''will-be-deleted-within-a-week''"

text \<open>The loop of lines 63 to 68; \<open>branches_labeled\<close> is its accumulator.\<close>

fun label_prs ::
  "manager \<Rightarrow> repository \<Rightarrow> pull_request list \<Rightarrow> string list \<Rightarrow> state
     \<Rightarrow> (error + string list) \<times> state" where
  "label_prs m repo [] branches_labeled s = (Inr branches_labeled, s)"
| "label_prs m repo (pr # rest) branches_labeled s =
     (case get_pull repo (pr_number pr) s of
        (Inl e, s1) \<Rightarrow> (Inl e, s1)
      | (Inr pull_req, s1) \<Rightarrow>
          (let s2 = log_info (LogApplying (pr_number pr) (repo_name repo)) s1
           in if \<not> dry_run m
              then (case set_labels pull_req [pending_label] s2 of
                      (Inl e, s3) \<Rightarrow> (Inl e, s3)
                    | (Inr u, s3) \<Rightarrow>
                        label_prs m repo rest (branches_labeled @ [pr_head_ref pull_req]) s3)
              else label_prs m repo rest branches_labeled s2))"

text \<open>The loop of lines 55 to 70 over the repositories listed for the organization.\<close>

fun label_repos :: "manager \<Rightarrow> repository list \<Rightarrow> state \<Rightarrow> (error + unit) \<times> state" where
  "label_repos m [] s = (Inr (), s)"
| "label_repos m (repo # rest) s =
     (case get_branches_totalCount repo (log_info (LogProcessing (repo_name repo)) s) of
        (total_branches, s1) \<Rightarrow>
     (case get_prs_branches_to_be_deleted m repo
             (log_info (LogTotalBranches (repo_name repo) total_branches) s1) of
        (Inl e, s2) \<Rightarrow> (Inl e, s2)
      | (Inr (prs_to_be_labelled, uu), s2) \<Rightarrow>
          (case label_prs m repo prs_to_be_labelled [] s2 of
             (Inl e, s3) \<Rightarrow> (Inl e, s3)
           | (Inr branches_labeled, s3) \<Rightarrow>
               label_repos m rest
                 (log_info (LogBranchesLabeled (repo_name repo) branches_labeled) s3))))"

definition label_stale_branches :: "manager \<Rightarrow> state \<Rightarrow> (error + unit) \<times> state" where
  "label_stale_branches m s = (case get_repos s of (rs, s1) \<Rightarrow> label_repos m rs s1)"

subsection \<open>The delete driver\<close>

text \<open>The loop of lines 81 to 85.\<close>

fun delete_branches ::
  "manager \<Rightarrow> repository \<Rightarrow> string list \<Rightarrow> state \<Rightarrow> (error + unit) \<times> state" where
  "delete_branches m repo [] s = (Inr (), s)"
| "delete_branches m repo (branch_str # rest) s =
     (case get_git_ref repo (''heads/'' @ branch_str) s of
        (Inl e, s1) \<Rightarrow> (Inl e, s1)
      | (Inr branch, s1) \<Rightarrow>
          (let s2 = log_info (LogBranch branch_str (ref_sha branch)) s1
           in if \<not> dry_run m
              then (case delete_ref branch s2 of
                      (Inl e, s3) \<Rightarrow> (Inl e, s3)
                    | (Inr u, s3) \<Rightarrow> delete_branches m repo rest s3)
              else delete_branches m repo rest s2))"

text \<open>The loop of lines 73 to 85 over the repositories listed for the organization.\<close>

fun delete_repos :: "manager \<Rightarrow> repository list \<Rightarrow> state \<Rightarrow> (error + unit) \<times> state" where
  "delete_repos m [] s = (Inr (), s)"
| "delete_repos m (repo # rest) s =
     (case get_branches_totalCount repo (log_info (LogProcessing (repo_name repo)) s) of
        (total_branches, s1) \<Rightarrow>
     (case get_prs_branches_to_be_deleted m repo
             (log_info (LogTotalBranches (repo_name repo) total_branches) s1) of
        (Inl e, s2) \<Rightarrow> (Inl e, s2)
      | (Inr (uu, branches_to_be_deleted), s2) \<Rightarrow>
          (case delete_branches m repo branches_to_be_deleted
                  (log_info (LogDeleting (end_date m) (repo_name repo)) s2) of
             (Inl e, s3) \<Rightarrow> (Inl e, s3)
           | (Inr u, s3) \<Rightarrow> delete_repos m rest s3)))"

definition delete_stale_branches :: "manager \<Rightarrow> state \<Rightarrow> (error + unit) \<times> state" where
  "delete_stale_branches m s = (case get_repos s of (rs, s1) \<Rightarrow> delete_repos m rs s1)"

section \<open>Notions used to state the properties\<close>

text \<open>The gateway calls that change remote state.\<close>

fun mutating :: "api_call \<Rightarrow> bool" where
  "mutating (SetLabels r n ls) = True"
| "mutating (DeleteRef r p) = True"
| "mutating c = False"

fun is_delete_ref :: "api_call \<Rightarrow> bool" where
  "is_delete_ref (DeleteRef r p) = True"
| "is_delete_ref c = False"

text \<open>An issue address names one issue.\<close>

definition wf_world :: "world \<Rightarrow> bool" where
  "wf_world w = distinct (map issue_url (issues w))"

definition protected :: "issue \<Rightarrow> bool" where
  "protected i = (protective_label \<in> set (labels i))"

text \<open>
  The candidate issues of a repository in a given world: the value of
  \<^verbatim>\<open>issues_to_be_removed\<close> at line 43 when both searches read that world.
\<close>

definition candidates :: "manager \<Rightarrow> repository \<Rightarrow> world \<Rightarrow> issue list" where
  "candidates m repo w =
     issues_to_be_removed (matching (query_older_issues m repo) w)
       (matching (query_issues_labelled_do_not_delete m repo) w)"

text \<open>The cutoff dates a query mentions, and what it means for a call or a log record
  to use the cutoff \<open>d\<close> and no other.\<close>

fun query_cutoffs :: "qualifier list \<Rightarrow> py_date list" where
  "query_cutoffs [] = []"
| "query_cutoffs (CreatedBefore d # q) = d # query_cutoffs q"
| "query_cutoffs (c # q) = query_cutoffs q"

fun call_uses_cutoff :: "py_date \<Rightarrow> api_call \<Rightarrow> bool" where
  "call_uses_cutoff d (SearchIssues q) = (query_cutoffs q = [d])"
| "call_uses_cutoff d c = True"

fun log_uses_cutoff :: "py_date \<Rightarrow> log_record \<Rightarrow> bool" where
  "log_uses_cutoff d (LogDeleting d' n) = (d' = d)"
| "log_uses_cutoff d r = True"

text \<open>
  \<open>grows P Q s s'\<close>: from \<open>s\<close> to \<open>s'\<close> the call sequence and the log were only
  appended to, by calls satisfying \<open>P\<close> and records satisfying \<open>Q\<close>.
\<close>

definition grows :: "(api_call \<Rightarrow> bool) \<Rightarrow> (log_record \<Rightarrow> bool) \<Rightarrow> state \<Rightarrow> state \<Rightarrow> bool" where
  "grows P Q s s' =
     (\<exists>cs ls. calls s' = calls s @ cs \<and> list_all P cs \<and> logs s' = logs s @ ls \<and> list_all Q ls)"

section \<open>A concrete organization\<close>

text \<open>
  Day number 739000 is today; the cutoff for a period of 12 is noon of the day before.
  Repository \<open>app\<close> has three open pull requests created 400 days ago, one of them
  carrying the protective label, and one created today; repository \<open>lib\<close> has one old
  pull request.
\<close>

definition app_repo :: repository where
  "app_repo = \<lparr>repo_name = ''app'', full_name = ''acme/app''\<rparr>"

definition lib_repo :: repository where
  "lib_repo = \<lparr>repo_name = ''lib'', full_name = ''acme/lib''\<rparr>"

definition pr1 :: issue where
  "pr1 = \<lparr>issue_repo = ''acme/app'', issue_number = 1, created_at = 17726400, is_open = True,
          head_ref = Some ''fa'', labels = [''bug'']\<rparr>"

definition pr2 :: issue where
  "pr2 = \<lparr>issue_repo = ''acme/app'', issue_number = 2, created_at = 17726400, is_open = True,
          head_ref = Some ''fb'', labels = [''do-not-delete'']\<rparr>"

definition pr3 :: issue where
  "pr3 = \<lparr>issue_repo = ''acme/app'', issue_number = 3, created_at = 17726400, is_open = True,
          head_ref = Some ''fc'', labels = []\<rparr>"

definition pr4 :: issue where
  "pr4 = \<lparr>issue_repo = ''acme/app'', issue_number = 4, created_at = 17736000, is_open = True,
          head_ref = Some ''fd'', labels = []\<rparr>"

definition pr5 :: issue where
  "pr5 = \<lparr>issue_repo = ''acme/lib'', issue_number = 1, created_at = 17726400, is_open = True,
          head_ref = Some ''fx'', labels = []\<rparr>"

definition scenario_refs :: "git_ref list" where
  "scenario_refs =
     [\<lparr>ref_repo = ''acme/app'', ref_path = ''heads/main'', ref_sha = ''c0''\<rparr>,
      \<lparr>ref_repo = ''acme/app'', ref_path = ''heads/fa'', ref_sha = ''c1''\<rparr>,
      \<lparr>ref_repo = ''acme/app'', ref_path = ''heads/fb'', ref_sha = ''c2''\<rparr>,
      \<lparr>ref_repo = ''acme/app'', ref_path = ''heads/fc'', ref_sha = ''c3''\<rparr>,
      \<lparr>ref_repo = ''acme/lib'', ref_path = ''heads/fx'', ref_sha = ''c5''\<rparr>]"

definition scenario_world :: world where
  "scenario_world =
     \<lparr>api_token = ''t'', org_login = ''acme'', org_repos = [app_repo, lib_repo],
      git_refs = scenario_refs, issues = [pr1, pr2, pr3, pr4, pr5]\<rparr>"

definition scenario_state :: state where
  "scenario_state = \<lparr>gh = scenario_world, calls = [], logs = []\<rparr>"

definition scenario_manager :: "bool \<Rightarrow> manager" where
  "scenario_manager dry =
     \<lparr>github_token = ''t'', org = ''acme'', end_date = DateTime 738999 12, dry_run = dry\<rparr>"

text \<open>The calls the label driver and the delete driver may issue for a manager \<open>m\<close>.\<close>

fun label_driver_call :: "manager \<Rightarrow> api_call \<Rightarrow> bool" where
  "label_driver_call m GetRepos = True"
| "label_driver_call m (GetBranches fn) = True"
| "label_driver_call m (SearchIssues q) = (query_cutoffs q = [end_date m])"
| "label_driver_call m (AsPullRequest fn n) = True"
| "label_driver_call m (GetPull fn n) = True"
| "label_driver_call m (SetLabels fn n ls) = (\<not> dry_run m \<and> ls = [pending_label])"
| "label_driver_call m c = False"

fun delete_driver_call :: "manager \<Rightarrow> api_call \<Rightarrow> bool" where
  "delete_driver_call m GetRepos = True"
| "delete_driver_call m (GetBranches fn) = True"
| "delete_driver_call m (SearchIssues q) = (query_cutoffs q = [end_date m])"
| "delete_driver_call m (AsPullRequest fn n) = True"
| "delete_driver_call m (GetGitRef fn p) = True"
| "delete_driver_call m (DeleteRef fn p) = (\<not> dry_run m)"
| "delete_driver_call m c = False"

text \<open>The scenario after the branch \<open>fa\<close> of the first candidate was deleted by someone else.\<close>

definition scenario_state_gone :: state where
  "scenario_state_gone =
     \<lparr>gh = scenario_world\<lparr>git_refs := filter (\<lambda>r. ref_path r \<noteq> ''heads/fa'') scenario_refs\<rparr>,
      calls = [], logs = []\<rparr>"

text \<open>Two worlds that differ at most in the labels of their issues.\<close>

definition same_but_labels :: "world \<Rightarrow> world \<Rightarrow> bool" where
  "same_but_labels w w' =
     (api_token w' = api_token w \<and> org_login w' = org_login w \<and> org_repos w' = org_repos w
      \<and> git_refs w' = git_refs w
      \<and> map (\<lambda>i. i\<lparr>labels := []\<rparr>) (issues w') = map (\<lambda>i. i\<lparr>labels := []\<rparr>) (issues w))"

text \<open>
  An issue with its labels reduced to whether it carries the protective label: all that
  the two queries of the staleness filter can see of the labels.
\<close>

definition unlabel :: "issue \<Rightarrow> issue" where
  "unlabel i = i\<lparr>labels := (if protected i then [protective_label] else [])\<rparr>"

definition lsim :: "world \<Rightarrow> world \<Rightarrow> bool" where
  "lsim w w' =
     (org_repos w' = org_repos w \<and> git_refs w' = git_refs w
      \<and> map unlabel (issues w') = map unlabel (issues w))"

text \<open>The world after the pending label was put on the issues with addresses in \<open>U\<close>.\<close>

definition relabel :: "(string \<times> nat) set \<Rightarrow> world \<Rightarrow> world" where
  "relabel U w =
     w\<lparr>issues := map (\<lambda>i. if issue_url i \<in> U then i\<lparr>labels := [pending_label]\<rparr> else i)
                      (issues w)\<rparr>"

text \<open>The addresses of the candidates of the repositories \<open>rs\<close>.\<close>

definition targets :: "manager \<Rightarrow> repository list \<Rightarrow> world \<Rightarrow> (string \<times> nat) set" where
  "targets m rs w = (\<Union>repo \<in> set rs. issue_url ` set (candidates m repo w))"

text \<open>A log record with the list of a \<open>Branches labeled\<close> summary emptied.\<close>

fun summary_emptied :: "log_record \<Rightarrow> log_record" where
  "summary_emptied (LogBranchesLabeled n bs) = LogBranchesLabeled n []"
| "summary_emptied r = r"

definition blank :: "bool \<Rightarrow> log_record \<Rightarrow> log_record" where
  "blank d r = (if d then summary_emptied r else r)"




section \<open>Proofs\<close>

lemmas scenario_defs = scenario_state_def scenario_world_def scenario_manager_def scenario_refs_def
  app_repo_def lib_repo_def pr1_def pr2_def pr3_def pr4_def pr5_def

section \<open>Date arithmetic\<close>

lemma mk_relativedelta_total:
  "24 * rd_days (mk_relativedelta 0 p) + rd_hours (mk_relativedelta 0 p) = p"
proof -
  consider "abs p \<le> 23" | "23 < p" | "p < - 23" by linarith
  then show ?thesis
  proof cases
    case 1
    then show ?thesis by (simp add: mk_relativedelta_def)
  next
    case 2
    then show ?thesis by (simp add: mk_relativedelta_def Let_def)
  next
    case 3
    then have d: "rd_days (mk_relativedelta 0 p) = - (- p div 24)"
      and h: "rd_hours (mk_relativedelta 0 p) = - (- p mod 24)"
      by (simp_all add: mk_relativedelta_def Let_def)
    have "24 * (- p div 24) + - p mod 24 = - p" by (rule mult_div_mod_eq)
    then show ?thesis unfolding d h by linarith
  qed
qed

lemma rd_neg_mk:
  "rd_neg (mk_relativedelta 0 p) =
     \<lparr>rd_days = - rd_days (mk_relativedelta 0 p), rd_hours = - rd_hours (mk_relativedelta 0 p)\<rparr>"
proof -
  have "abs (rd_hours (mk_relativedelta 0 p)) \<le> 23"
    by (auto simp: mk_relativedelta_def Let_def sgn_if abs_if)
  then show ?thesis
    by (simp add: rd_neg_def mk_relativedelta_def[of "- rd_days (mk_relativedelta 0 p)"])
qed

lemma rd_neg_total:
  "24 * (today + rd_days (rd_neg (mk_relativedelta 0 p))) + rd_hours (rd_neg (mk_relativedelta 0 p))
     = 24 * today - p"
  using mk_relativedelta_total[of p] by (simp add: rd_neg_mk)

lemma date_sub_hours:
  assumes "date_sub today (mk_relativedelta 0 p) = Inr d"
  shows "hours_of d = 24 * today - p"
proof -
  let ?n = "rd_neg (mk_relativedelta 0 p)"
  show ?thesis
  proof (cases "has_time ?n")
    case True
    with assms have "d = DateTime ((24 * today - p) div 24) ((24 * today - p) mod 24)"
      unfolding date_sub_def date_add_def Let_def rd_neg_total by (simp split: if_splits)
    then show ?thesis by simp
  next
    case False
    then have "rd_hours ?n = 0" by (simp add: has_time_def)
    with rd_neg_total[of today p] have "24 * (today + rd_days ?n) = 24 * today - p" by simp
    moreover from assms False have "d = Date (today + rd_days ?n)"
      unfolding date_sub_def date_add_def Let_def by (simp split: if_splits)
    ultimately show ?thesis by simp
  qed
qed

lemma init_Inr:
  assumes "init tok name p dry today s = (Inr m, s')"
  shows "date_sub today (mk_relativedelta 0 p) = Inr (end_date m)" and "dry_run m = dry"
    and "tok = api_token (gh s)" and "name = org_login (gh s)" and "gh s' = gh s"
  using assms
  by (auto simp: init_def get_organization_def Let_def log_info_def called_def
           split: if_splits sum.splits)

section \<open>Effects of the gateway operations\<close>

lemma log_info_simps [simp]:
  "gh (log_info r s) = gh s" "calls (log_info r s) = calls s" "logs (log_info r s) = logs s @ [r]"
  by (simp_all add: log_info_def)

lemma called_simps [simp]:
  "gh (called c s) = gh s" "calls (called c s) = calls s @ [c]" "logs (called c s) = logs s"
  by (simp_all add: called_def)

lemma grows_refl: "grows P Q s s"
  by (simp add: grows_def)

lemma grows_trans: "grows P Q s s1 \<Longrightarrow> grows P Q s1 s2 \<Longrightarrow> grows P Q s s2"
  unfolding grows_def
proof (elim exE conjE)
  fix cs ls cs' ls'
  assume "calls s1 = calls s @ cs" "list_all P cs" "logs s1 = logs s @ ls" "list_all Q ls"
    "calls s2 = calls s1 @ cs'" "list_all P cs'" "logs s2 = logs s1 @ ls'" "list_all Q ls'"
  then have "calls s2 = calls s @ (cs @ cs') \<and> list_all P (cs @ cs')
      \<and> logs s2 = logs s @ (ls @ ls') \<and> list_all Q (ls @ ls')"
    by simp
  then show "\<exists>cs ls. calls s2 = calls s @ cs \<and> list_all P cs \<and> logs s2 = logs s @ ls \<and> list_all Q ls"
    by blast
qed

lemma grows_called: "P c \<Longrightarrow> grows P Q s (called c s)"
  by (simp add: grows_def)

lemma grows_log: "Q r \<Longrightarrow> grows P Q s (log_info r s)"
  by (simp add: grows_def)

lemma grows_gh_update: "grows P Q s s' \<Longrightarrow> grows P Q s (s'\<lparr>gh := w\<rparr>)"
  by (simp add: grows_def)

lemma grows_called_log: "P c \<Longrightarrow> Q r \<Longrightarrow> grows P Q s (log_info r (called c s))"
  by (simp add: grows_def)

lemma fetch_pull_Inr:
  assumes "fetch_pull w u = Inr p"
  obtains i b where "i \<in> set (issues w)" "issue_url i = u" "head_ref i = Some b" "p = pull_of i b"
    "find (\<lambda>i. issue_url i = u) (issues w) = Some i"
  using assms unfolding fetch_pull_def
  by (auto split: option.splits simp: find_Some_iff) (metis nth_mem)

lemma fetch_pull_url: "fetch_pull w u = Inr p \<Longrightarrow> pr_url p = u"
  by (erule fetch_pull_Inr) (simp add: pr_url_def pull_of_def issue_url_def)

lemma fetch_pull_error: "fetch_pull w u = Inl e \<Longrightarrow> e = UnknownObject"
  by (auto simp: fetch_pull_def split: option.splits)

section \<open>The staleness filter\<close>

lemma collect_branches_frame:
  "collect_branches xs prs brs s = (r, s') \<Longrightarrow>
     gh s' = gh s \<and> logs s' = logs s
     \<and> (\<exists>k. calls s' = calls s @ map (\<lambda>x. AsPullRequest (issue_repo x) (issue_number x))
                                     (take k xs))"
proof (induction xs arbitrary: prs brs s)
  case Nil
  then show ?case by auto
next
  case (Cons x xs)
  let ?s1 = "called (AsPullRequest (issue_repo x) (issue_number x)) s"
  show ?case
  proof (cases "fetch_pull (gh s) (issue_url x)")
    case (Inl e)
    with Cons.prems have "s' = ?s1" by (auto simp: as_pull_request_def)
    then have "calls s' = calls s @ map (\<lambda>x. AsPullRequest (issue_repo x) (issue_number x))
                                     (take (Suc 0) (x # xs))" by simp
    with \<open>s' = ?s1\<close> show ?thesis by (metis called_simps(1,3))
  next
    case (Inr p)
    with Cons.prems have "collect_branches xs (prs @ [p]) (brs @ [pr_head_ref p]) ?s1 = (r, s')"
      by (simp add: as_pull_request_def)
    from Cons.IH[OF this] obtain k where
      k: "gh s' = gh s" "logs s' = logs s"
         "calls s' = calls ?s1 @ map (\<lambda>x. AsPullRequest (issue_repo x) (issue_number x)) (take k xs)"
      by auto
    then have "calls s' = calls s @ map (\<lambda>x. AsPullRequest (issue_repo x) (issue_number x))
                                     (take (Suc k) (x # xs))" by simp
    with k(1,2) show ?thesis by blast
  qed
qed

lemma collect_branches_Inr:
  "collect_branches xs prs brs s = (Inr (prs', brs'), s') \<Longrightarrow>
     \<exists>ps. prs' = prs @ ps \<and> brs' = brs @ map pr_head_ref ps
          \<and> map (\<lambda>x. fetch_pull (gh s) (issue_url x)) xs = map Inr ps"
proof (induction xs arbitrary: prs brs s)
  case Nil
  then show ?case by auto
next
  case (Cons x xs)
  show ?case
  proof (cases "fetch_pull (gh s) (issue_url x)")
    case (Inl e)
    with Cons.prems show ?thesis by (auto simp: as_pull_request_def)
  next
    case (Inr p)
    with Cons.prems
      Cons.IH[of "prs @ [p]" "brs @ [pr_head_ref p]"
                 "called (AsPullRequest (issue_repo x) (issue_number x)) s"]
    show ?thesis by (auto simp: as_pull_request_def)
  qed
qed

lemma collect_branches_Inl:
  "collect_branches xs prs brs s = (Inl e, s') \<Longrightarrow> e = UnknownObject"
proof (induction xs arbitrary: prs brs s)
  case Nil
  then show ?case by simp
next
  case (Cons x xs)
  show ?case
  proof (cases "fetch_pull (gh s) (issue_url x)")
    case (Inl e')
    with Cons.prems show ?thesis by (auto simp: as_pull_request_def dest: fetch_pull_error)
  next
    case (Inr p)
    with Cons.prems
      Cons.IH[of "prs @ [p]" "brs @ [pr_head_ref p]"
                 "called (AsPullRequest (issue_repo x) (issue_number x)) s"]
    show ?thesis by (auto simp: as_pull_request_def)
  qed
qed

lemma get_prs_unfold:
  "get_prs_branches_to_be_deleted m repo s =
     collect_branches (candidates m repo (gh s)) [] []
       (log_info (LogGetting (repo_name repo))
          (called (SearchIssues (query_issues_labelled_do_not_delete m repo))
             (called (SearchIssues (query_older_issues m repo)) s)))"
  by (simp add: get_prs_branches_to_be_deleted_def search_issues_def candidates_def)

lemma get_prs_gh: "get_prs_branches_to_be_deleted m repo s = (r, s') \<Longrightarrow> gh s' = gh s"
  by (auto simp: get_prs_unfold dest: collect_branches_frame)

lemma get_prs_Inr:
  assumes "get_prs_branches_to_be_deleted m repo s = (Inr (prs, brs), s')"
  shows "brs = map pr_head_ref prs"
    and "map (\<lambda>x. fetch_pull (gh s) (issue_url x)) (candidates m repo (gh s)) = map Inr prs"
  using assms by (auto simp: get_prs_unfold dest!: collect_branches_Inr)

lemma get_prs_Inl: "get_prs_branches_to_be_deleted m repo s = (Inl e, s') \<Longrightarrow> e = UnknownObject"
  by (auto simp: get_prs_unfold dest: collect_branches_Inl)

lemma query_cutoffs_older [simp]: "query_cutoffs (query_older_issues m repo) = [end_date m]"
  by (simp add: query_older_issues_def)

lemma query_cutoffs_protected [simp]:
  "query_cutoffs (query_issues_labelled_do_not_delete m repo) = [end_date m]"
  by (simp add: query_issues_labelled_do_not_delete_def)

lemma get_prs_grows:
  assumes "get_prs_branches_to_be_deleted m repo s = (r, s')"
    and "P (SearchIssues (query_older_issues m repo))"
    and "P (SearchIssues (query_issues_labelled_do_not_delete m repo))"
    and "\<And>fn n. P (AsPullRequest fn n)"
    and "Q (LogGetting (repo_name repo))"
  shows "grows P Q s s'"
proof -
  let ?s3 = "log_info (LogGetting (repo_name repo))
          (called (SearchIssues (query_issues_labelled_do_not_delete m repo))
             (called (SearchIssues (query_older_issues m repo)) s))"
  from assms(1) have c: "collect_branches (candidates m repo (gh s)) [] [] ?s3 = (r, s')"
    by (simp add: get_prs_unfold)
  from collect_branches_frame[OF c] obtain k where
    "logs s' = logs ?s3" "calls s' = calls ?s3 @ map (\<lambda>x. AsPullRequest (issue_repo x) (issue_number x)) (take k (candidates m repo (gh s)))"
    by blast
  then have "calls s' = calls s @ ([SearchIssues (query_older_issues m repo), SearchIssues (query_issues_labelled_do_not_delete m repo)] @ map (\<lambda>x. AsPullRequest (issue_repo x) (issue_number x)) (take k (candidates m repo (gh s))))"
    and "logs s' = logs s @ [LogGetting (repo_name repo)]" by simp_all
  moreover have "list_all P ([SearchIssues (query_older_issues m repo), SearchIssues (query_issues_labelled_do_not_delete m repo)] @ map (\<lambda>x. AsPullRequest (issue_repo x) (issue_number x)) (take k (candidates m repo (gh s))))"
    using assms(2-4) by (simp add: list_all_iff)
  moreover have "list_all Q [LogGetting (repo_name repo)]" using assms(5) by simp
  ultimately show ?thesis unfolding grows_def by blast
qed

lemma fetched_urls:
  "map (\<lambda>x. fetch_pull w (issue_url x)) xs = map Inr ps \<Longrightarrow> map pr_url ps = map issue_url xs"
proof (induction xs arbitrary: ps)
  case Nil
  then show ?case by simp
next
  case (Cons x xs)
  then show ?case by (cases ps) (auto dest: fetch_pull_url)
qed

lemma fetched_member:
  assumes "map (\<lambda>x. fetch_pull w (issue_url x)) xs = map Inr ps" and "p \<in> set ps"
  obtains x where "x \<in> set xs" and "fetch_pull w (issue_url x) = Inr p"
proof -
  from assms(2) have "Inr p \<in> set (map Inr ps)" by simp
  with assms(1) have "Inr p \<in> set (map (\<lambda>x. fetch_pull w (issue_url x)) xs)" by simp
  then show ?thesis using that by auto
qed

lemma wf_world_same:
  "wf_world w \<Longrightarrow> i \<in> set (issues w) \<Longrightarrow> x \<in> set (issues w) \<Longrightarrow> issue_url i = issue_url x \<Longrightarrow> i = x"
  by (auto simp: wf_world_def distinct_map dest: inj_onD)

lemma wf_fetch_pull:
  assumes "wf_world w" "x \<in> set (issues w)" "fetch_pull w (issue_url x) = Inr p"
  obtains b where "head_ref x = Some b" and "p = pull_of x b"
  using assms(3)
proof (rule fetch_pull_Inr)
  fix i b
  assume "i \<in> set (issues w)" "issue_url i = issue_url x" "head_ref i = Some b" "p = pull_of i b"
  with assms(1,2) have "i = x" by (blast intro: wf_world_same)
  with \<open>head_ref i = Some b\<close> \<open>p = pull_of i b\<close> show thesis using that by simp
qed

lemma candidates_D:
  assumes "x \<in> set (candidates m repo w)"
  shows "x \<in> set (issues w)" and "issue_repo x = full_name repo" and "is_open x"
    and "created_at x < hours_of (end_date m)" and "\<not> protected x"
  using assms
  by (auto simp: candidates_def issues_to_be_removed_def matching_def query_older_issues_def
        query_issues_labelled_do_not_delete_def py_in_def list_ex_iff issue_eq_def protected_def)

lemma excluded_by_identity:
  "y \<in> set dnd \<Longrightarrow> issue_url x = issue_url y \<Longrightarrow> x \<notin> set (issues_to_be_removed older dnd)"
  by (auto simp: issues_to_be_removed_def py_in_def list_ex_iff issue_eq_def)

text \<open>
  C1.  An issue that carries the protective label \<open>do-not-delete\<close> when the filter runs
  is not among the pull requests the staleness filter returns, whatever its age; and the
  exclusion at line 43 compares addresses: an element of the older list whose address
  equals that of some element of the protected list is dropped, also when the two
  objects differ in the data they carry.
\<close>

theorem protective_label_excluded:
  assumes "wf_world (gh s)"
    and "get_prs_branches_to_be_deleted m repo s = (Inr (prs, brs), s')"
  shows "(\<forall>i \<in> set (issues (gh s)). protected i \<longrightarrow> issue_url i \<notin> pr_url ` set prs)
       \<and> (\<forall>older dnd x y. y \<in> set dnd \<and> issue_url x = issue_url y
             \<longrightarrow> x \<notin> set (issues_to_be_removed older dnd))"
proof (intro conjI ballI impI allI)
  fix i
  assume i: "i \<in> set (issues (gh s))" and prot: "protected i"
  show "issue_url i \<notin> pr_url ` set prs"
  proof
    assume "issue_url i \<in> pr_url ` set prs"
    then obtain p where p: "p \<in> set prs" "pr_url p = issue_url i" by auto
    from get_prs_Inr(2)[OF assms(2)] p(1) obtain x where
      x: "x \<in> set (candidates m repo (gh s))" "fetch_pull (gh s) (issue_url x) = Inr p"
      by (rule fetched_member)
    from x(2) p(2) have "issue_url x = issue_url i" by (simp add: fetch_pull_url)
    with assms(1) i candidates_D(1)[OF x(1)] have "x = i" by (blast intro: wf_world_same)
    with candidates_D(5)[OF x(1)] prot show False by simp
  qed
next
  fix older dnd x y
  assume "y \<in> set dnd \<and> issue_url x = issue_url y"
  then show "x \<notin> set (issues_to_be_removed older dnd)"
    by (blast dest: excluded_by_identity)
qed

theorem protective_label_excluded_witness:
  "wf_world (gh scenario_state)
   \<and> fst (get_prs_branches_to_be_deleted (scenario_manager False) app_repo scenario_state)
       = Inr ([pull_of pr1 ''fa'', pull_of pr3 ''fc''], [''fa'', ''fc''])
   \<and> pr2 \<in> set (issues (gh scenario_state)) \<and> protected pr2
   \<and> issue_url pr2 \<notin> pr_url ` set [pull_of pr1 ''fa'', pull_of pr3 ''fc'']
   \<and> pr2\<lparr>labels := []\<rparr> \<notin> set (issues_to_be_removed [pr1, pr2\<lparr>labels := []\<rparr>, pr3] [pr2])"
proof -
  let ?X = "get_prs_branches_to_be_deleted (scenario_manager False) app_repo scenario_state"
  have wf: "wf_world (gh scenario_state)"
    by (simp add: wf_world_def issue_url_def scenario_defs)
  have f: "fst ?X = Inr ([pull_of pr1 ''fa'', pull_of pr3 ''fc''], [''fa'', ''fc''])"
    by code_simp
  then have e: "?X = (Inr ([pull_of pr1 ''fa'', pull_of pr3 ''fc''], [''fa'', ''fc'']), snd ?X)"
    by (metis prod.collapse)
  have i: "pr2 \<in> set (issues (gh scenario_state))" "protected pr2"
    by (simp_all add: scenario_defs protected_def protective_label_def)
  have u: "issue_url (pr2\<lparr>labels := []\<rparr>) = issue_url pr2" by (simp add: issue_url_def)
  from protective_label_excluded[OF wf e] i u wf f show ?thesis by simp
qed

text \<open>
  C2.  Every pull request in the list the staleness filter returns is open and was
  created strictly before the cutoff date of the manager: none has a creation date at
  or after the cutoff.
\<close>

theorem candidates_before_cutoff:
  assumes "wf_world (gh s)"
    and "get_prs_branches_to_be_deleted m repo s = (Inr (prs, brs), s')"
  shows "\<forall>p \<in> set prs. pr_open p \<and> pr_created_at p < hours_of (end_date m)
            \<and> \<not> hours_of (end_date m) \<le> pr_created_at p"
proof
  fix p
  assume "p \<in> set prs"
  with get_prs_Inr(2)[OF assms(2)] obtain x where
    x: "x \<in> set (candidates m repo (gh s))" "fetch_pull (gh s) (issue_url x) = Inr p"
    by (rule fetched_member)
  from assms(1) candidates_D(1)[OF x(1)] x(2) obtain b where "p = pull_of x b"
    by (rule wf_fetch_pull)
  with candidates_D(3,4)[OF x(1)]
  show "pr_open p \<and> pr_created_at p < hours_of (end_date m)
            \<and> \<not> hours_of (end_date m) \<le> pr_created_at p"
    by (simp add: pull_of_def)
qed

theorem candidates_before_cutoff_witness:
  "wf_world (gh scenario_state)
   \<and> fst (get_prs_branches_to_be_deleted (scenario_manager False) app_repo scenario_state)
       = Inr ([pull_of pr1 ''fa'', pull_of pr3 ''fc''], [''fa'', ''fc''])
   \<and> pr_open (pull_of pr1 ''fa'')
   \<and> pr_created_at (pull_of pr1 ''fa'') < hours_of (end_date (scenario_manager False))
   \<and> pr_open (pull_of pr3 ''fc'')
   \<and> pr_created_at (pull_of pr3 ''fc'') < hours_of (end_date (scenario_manager False))"
proof -
  let ?X = "get_prs_branches_to_be_deleted (scenario_manager False) app_repo scenario_state"
  have wf: "wf_world (gh scenario_state)"
    by (simp add: wf_world_def issue_url_def scenario_defs)
  have f: "fst ?X = Inr ([pull_of pr1 ''fa'', pull_of pr3 ''fc''], [''fa'', ''fc''])"
    by code_simp
  then have e: "?X = (Inr ([pull_of pr1 ''fa'', pull_of pr3 ''fc''], [''fa'', ''fc'']), snd ?X)"
    by (metis prod.collapse)
  from candidates_before_cutoff[OF wf e] wf f show ?thesis by simp
qed

text \<open>
  C3.  The two lists the staleness filter returns have the same length, element \<open>i\<close> of
  the branch list is the head branch of element \<open>i\<close> of the pull-request list, and the
  pull requests are those of the older query's result that are not in the protected
  query's result, in the order of the older query's result.
\<close>

theorem filter_lists_aligned:
  assumes "get_prs_branches_to_be_deleted m repo s = (Inr (prs, brs), s')"
  shows "length brs = length prs
       \<and> (\<forall>i < length prs. brs ! i = pr_head_ref (prs ! i))
       \<and> map pr_url prs =
           map issue_url
             (filter (\<lambda>x. \<not> py_in x (fst (search_issues (query_issues_labelled_do_not_delete m repo) s)))
                (fst (search_issues (query_older_issues m repo) s)))
       \<and> subseq (map pr_url prs) (map issue_url (fst (search_issues (query_older_issues m repo) s)))"
proof -
  let ?older = "fst (search_issues (query_older_issues m repo) s)"
  let ?dnd = "fst (search_issues (query_issues_labelled_do_not_delete m repo) s)"
  have c: "candidates m repo (gh s) = filter (\<lambda>x. \<not> py_in x ?dnd) ?older"
    by (simp add: candidates_def issues_to_be_removed_def search_issues_def)
  from get_prs_Inr[OF assms] have b: "brs = map pr_head_ref prs"
    and u: "map pr_url prs = map issue_url (candidates m repo (gh s))"
    by (simp_all add: fetched_urls)
  have "subseq (map issue_url (filter (\<lambda>x. \<not> py_in x ?dnd) ?older)) (map issue_url ?older)"
    by (simp add: subseq_map)
  with b u c show ?thesis by simp
qed

theorem filter_lists_aligned_witness:
  "fst (get_prs_branches_to_be_deleted (scenario_manager False) app_repo scenario_state)
       = Inr ([pull_of pr1 ''fa'', pull_of pr3 ''fc''], [''fa'', ''fc''])
   \<and> length [''fa'', ''fc''] = length [pull_of pr1 ''fa'', pull_of pr3 ''fc'']
   \<and> map pr_url [pull_of pr1 ''fa'', pull_of pr3 ''fc''] =
       map issue_url
         (filter (\<lambda>x. \<not> py_in x (fst (search_issues
              (query_issues_labelled_do_not_delete (scenario_manager False) app_repo) scenario_state)))
            (fst (search_issues (query_older_issues (scenario_manager False) app_repo) scenario_state)))"
proof -
  let ?X = "get_prs_branches_to_be_deleted (scenario_manager False) app_repo scenario_state"
  have f: "fst ?X = Inr ([pull_of pr1 ''fa'', pull_of pr3 ''fc''], [''fa'', ''fc''])"
    by code_simp
  then have e: "?X = (Inr ([pull_of pr1 ''fa'', pull_of pr3 ''fc''], [''fa'', ''fc'']), snd ?X)"
    by (metis prod.collapse)
  from filter_lists_aligned[OF e] f show ?thesis by blast
qed

text \<open>
  C8.  The cutoff the manager holds is the start of today minus the period counted in
  hours: a successful initialization with period \<open>p\<close> on day \<open>today\<close> yields the instant
  \<open>24 * today - p\<close> hours.  A positive period of \<open>p\<close> months would lie at least \<open>28 * p\<close>
  days back; the cutoff is later than that.
\<close>

theorem cutoff_counts_hours:
  assumes "init tok name p dry today s = (Inr m, s')"
  shows "hours_of (end_date m) = 24 * today - p
       \<and> (0 < p \<longrightarrow> 24 * (today - 28 * p) < hours_of (end_date m))"
proof -
  from init_Inr(1)[OF assms] have "hours_of (end_date m) = 24 * today - p"
    by (rule date_sub_hours)
  then show ?thesis by simp
qed

theorem cutoff_counts_hours_witness:
  "fst (init ''t'' ''acme'' 12 False 739000 scenario_state) = Inr (scenario_manager False)
   \<and> end_date (scenario_manager False) = DateTime 738999 12
   \<and> hours_of (end_date (scenario_manager False)) = 24 * 739000 - 12
   \<and> (0::int) < 12
   \<and> 24 * (739000 - 28 * 12) < hours_of (end_date (scenario_manager False))"
proof -
  let ?X = "init ''t'' ''acme'' 12 False 739000 scenario_state"
  have f: "fst ?X = Inr (scenario_manager False)"
    by (simp add: init_def get_organization_def date_sub_def date_add_def rd_neg_def
          mk_relativedelta_def has_time_def max_ordinal_def scenario_defs)
  then have e: "?X = (Inr (scenario_manager False), snd ?X)"
    by (metis prod.collapse)
  have d: "end_date (scenario_manager False) = DateTime 738999 12"
    by (simp add: scenario_manager_def)
  from cutoff_counts_hours[OF e] f d show ?thesis by simp
qed

section \<open>The drivers: what they call, log and change\<close>

lemma get_prs_driver_grows:
  assumes "get_prs_branches_to_be_deleted m repo s = (r, s')"
    and "\<And>q. query_cutoffs q = [end_date m] \<Longrightarrow> P (SearchIssues q)"
    and "\<And>fn n. P (AsPullRequest fn n)"
  shows "grows P (log_uses_cutoff (end_date m)) s s'"
  using assms(1) by (rule get_prs_grows) (simp_all add: assms(2,3))

lemma set_labels_cases:
  assumes "set_labels p ls s = (r, s')"
  obtains (ok) "r = Inr ()" "pr_url p \<in> issue_url ` set (issues (gh s))"
      "s' = (called (SetLabels (pr_repo p) (pr_number p) ls) s)\<lparr>gh := put_labels (pr_url p) ls (gh s)\<rparr>"
  | (missing) "r = Inl UnknownObject" "s' = called (SetLabels (pr_repo p) (pr_number p) ls) s"
  using assms by (auto simp: set_labels_def Let_def split: if_splits)

lemma set_labels_grows:
  "set_labels p ls s = (r, s') \<Longrightarrow> P (SetLabels (pr_repo p) (pr_number p) ls) \<Longrightarrow> grows P Q s s'"
  by (erule set_labels_cases) (simp_all add: grows_def)

lemma put_labels_simps [simp]:
  "git_refs (put_labels u ls w) = git_refs w" "org_repos (put_labels u ls w) = org_repos w"
  "api_token (put_labels u ls w) = api_token w" "org_login (put_labels u ls w) = org_login w"
  by (simp_all add: put_labels_def)

lemma put_labels_unlabelled:
  "map (\<lambda>i. i\<lparr>labels := []\<rparr>) (issues (put_labels u ls w)) = map (\<lambda>i. i\<lparr>labels := []\<rparr>) (issues w)"
  by (simp add: put_labels_def)

lemma label_prs_grows:
  assumes "label_prs m repo prs bl s = (r, s')"
  shows "grows (label_driver_call m) (log_uses_cutoff d) s s'"
  using assms
proof (induction prs arbitrary: bl s)
  case Nil
  then show ?case by (simp add: grows_refl)
next
  case (Cons pr prs)
  let ?s1 = "called (GetPull (full_name repo) (pr_number pr)) s"
  let ?s2 = "log_info (LogApplying (pr_number pr) (repo_name repo)) ?s1"
  have g2: "grows (label_driver_call m) (log_uses_cutoff d) s ?s2" by (simp add: grows_def) 
  show ?case
  proof (cases "fetch_pull (gh s) (full_name repo, pr_number pr)")
    case (Inl e)
    with Cons.prems have "s' = ?s1" by (simp add: get_pull_def)
    then show ?thesis by (simp add: grows_called)
  next
    case (Inr pull_req)
    show ?thesis
    proof (cases "dry_run m")
      case True
      with Inr Cons.prems have "label_prs m repo prs bl ?s2 = (r, s')"
        by (simp add: get_pull_def)
      from g2 Cons.IH[OF this] show ?thesis by (rule grows_trans)
    next
      case False
      obtain r3 s3 where sl: "set_labels pull_req [pending_label] ?s2 = (r3, s3)"
        by (cases "set_labels pull_req [pending_label] ?s2")
      have g3: "grows (label_driver_call m) (log_uses_cutoff d) ?s2 s3"
        using sl by (rule set_labels_grows) (simp add: False)
      show ?thesis
      proof (cases r3)
        case (Inl e)
        with Inr False sl Cons.prems have "s' = s3" by (simp add: get_pull_def)
        with g2 g3 show ?thesis by (blast intro: grows_trans)
      next
        case (Inr u)
        with \<open>fetch_pull _ _ = Inr pull_req\<close> False sl Cons.prems
        have "label_prs m repo prs (bl @ [pr_head_ref pull_req]) s3 = (r, s')"
          by (simp add: get_pull_def)
        from Cons.IH[OF this] g2 g3 show ?thesis by (blast intro: grows_trans)
      qed
    qed
  qed
qed

lemma same_but_labels_refl: "same_but_labels w w"
  by (simp add: same_but_labels_def)

lemma same_but_labels_trans:
  "same_but_labels w w1 \<Longrightarrow> same_but_labels w1 w2 \<Longrightarrow> same_but_labels w w2"
  by (simp add: same_but_labels_def)

lemma same_but_labels_put: "same_but_labels w (put_labels u ls w)"
  by (simp add: same_but_labels_def put_labels_unlabelled)

lemma set_labels_same_but_labels:
  "set_labels p ls s = (r, s') \<Longrightarrow> same_but_labels (gh s) (gh s')"
  by (erule set_labels_cases) (simp_all add: same_but_labels_put same_but_labels_refl)

lemma label_prs_same_but_labels:
  "label_prs m repo prs bl s = (r, s') \<Longrightarrow> same_but_labels (gh s) (gh s')"
proof (induction prs arbitrary: bl s)
  case Nil
  then show ?case by (simp add: same_but_labels_refl)
next
  case (Cons pr prs)
  let ?s1 = "called (GetPull (full_name repo) (pr_number pr)) s"
  let ?s2 = "log_info (LogApplying (pr_number pr) (repo_name repo)) ?s1"
  show ?case
  proof (cases "fetch_pull (gh s) (full_name repo, pr_number pr)")
    case (Inl e)
    with Cons.prems have "s' = ?s1" by (simp add: get_pull_def)
    then show ?thesis by (simp add: same_but_labels_refl)
  next
    case (Inr pull_req)
    show ?thesis
    proof (cases "dry_run m")
      case True
      with Inr Cons.prems have "label_prs m repo prs bl ?s2 = (r, s')"
        by (simp add: get_pull_def)
      from Cons.IH[OF this] show ?thesis by simp
    next
      case False
      obtain r3 s3 where sl: "set_labels pull_req [pending_label] ?s2 = (r3, s3)"
        by (cases "set_labels pull_req [pending_label] ?s2")
      from set_labels_same_but_labels[OF sl] have g3: "same_but_labels (gh s) (gh s3)" by simp
      show ?thesis
      proof (cases r3)
        case (Inl e)
        with Inr False sl Cons.prems have "s' = s3" by (simp add: get_pull_def)
        with g3 show ?thesis by simp
      next
        case (Inr u)
        with \<open>fetch_pull _ _ = Inr pull_req\<close> False sl Cons.prems
        have "label_prs m repo prs (bl @ [pr_head_ref pull_req]) s3 = (r, s')"
          by (simp add: get_pull_def)
        from Cons.IH[OF this] g3 show ?thesis by (blast intro: same_but_labels_trans)
      qed
    qed
  qed
qed

text \<open>One repository of the label driver, as the three steps of the loop body.\<close>

lemma label_repos_step:
  assumes "label_repos m (repo # rest) s = (r, s')"
  obtains (filter_fails) e s2 where
      "get_prs_branches_to_be_deleted m repo
         (log_info (LogTotalBranches (repo_name repo)
              (length (filter (is_branch_of (full_name repo)) (git_refs (gh s)))))
            (called (GetBranches (full_name repo)) (log_info (LogProcessing (repo_name repo)) s)))
       = (Inl e, s2)" "r = Inl e" "s' = s2"
  | (label_fails) prs brs s2 e s3 where
      "get_prs_branches_to_be_deleted m repo
         (log_info (LogTotalBranches (repo_name repo)
              (length (filter (is_branch_of (full_name repo)) (git_refs (gh s)))))
            (called (GetBranches (full_name repo)) (log_info (LogProcessing (repo_name repo)) s)))
       = (Inr (prs, brs), s2)"
      "label_prs m repo prs [] s2 = (Inl e, s3)" "r = Inl e" "s' = s3"
  | (continues) prs brs s2 bl s3 where
      "get_prs_branches_to_be_deleted m repo
         (log_info (LogTotalBranches (repo_name repo)
              (length (filter (is_branch_of (full_name repo)) (git_refs (gh s)))))
            (called (GetBranches (full_name repo)) (log_info (LogProcessing (repo_name repo)) s)))
       = (Inr (prs, brs), s2)"
      "label_prs m repo prs [] s2 = (Inr bl, s3)"
      "label_repos m rest (log_info (LogBranchesLabeled (repo_name repo) bl) s3) = (r, s')"
  using assms
  by (auto simp: get_branches_totalCount_def split: prod.splits sum.splits)


lemma label_repos_grows:
  "label_repos m rs s = (r, s') \<Longrightarrow>
     grows (label_driver_call m) (log_uses_cutoff (end_date m)) s s'"
proof (induction rs arbitrary: s)
  case Nil
  then show ?case by (simp add: grows_refl)
next
  case (Cons repo rest)
  let ?P = "label_driver_call m" and ?Q = "log_uses_cutoff (end_date m)"
  let ?s0 = "log_info (LogTotalBranches (repo_name repo)
              (length (filter (is_branch_of (full_name repo)) (git_refs (gh s)))))
            (called (GetBranches (full_name repo)) (log_info (LogProcessing (repo_name repo)) s))"
  have g0: "grows ?P ?Q s ?s0" by (simp add: grows_def)
  have gf: "grows ?P ?Q ?s0 s2" if "get_prs_branches_to_be_deleted m repo ?s0 = (x, s2)" for x s2
    using that by (rule get_prs_driver_grows) simp_all
  from Cons.prems show ?case
  proof (cases rule: label_repos_step)
    case (filter_fails e s2)
    with g0 gf show ?thesis by (blast intro: grows_trans)
  next
    case (label_fails prs brs s2 e s3)
    from label_fails(2) have "grows ?P ?Q s2 s3" by (rule label_prs_grows)
    with g0 gf[OF label_fails(1)] label_fails(4) show ?thesis by (blast intro: grows_trans)
  next
    case (continues prs brs s2 bl s3)
    let ?s4 = "log_info (LogBranchesLabeled (repo_name repo) bl) s3"
    from continues(2) have "grows ?P ?Q s2 s3" by (rule label_prs_grows)
    moreover have "grows ?P ?Q s3 ?s4" by (simp add: grows_log)
    moreover from continues(3) have "grows ?P ?Q ?s4 s'" by (rule Cons.IH)
    ultimately show ?thesis using g0 gf[OF continues(1)] by (blast intro: grows_trans)
  qed
qed

lemma label_repos_same_but_labels:
  "label_repos m rs s = (r, s') \<Longrightarrow> same_but_labels (gh s) (gh s')"
proof (induction rs arbitrary: s)
  case Nil
  then show ?case by (simp add: same_but_labels_refl)
next
  case (Cons repo rest)
  from Cons.prems show ?case
  proof (cases rule: label_repos_step)
    case (filter_fails e s2)
    from get_prs_gh[OF filter_fails(1)] filter_fails(3) show ?thesis
      by (simp add: same_but_labels_refl)
  next
    case (label_fails prs brs s2 e s3)
    from get_prs_gh[OF label_fails(1)] label_prs_same_but_labels[OF label_fails(2)] label_fails(4)
    show ?thesis by simp
  next
    case (continues prs brs s2 bl s3)
    from get_prs_gh[OF continues(1)] label_prs_same_but_labels[OF continues(2)]
    have "same_but_labels (gh s) (gh s3)" by simp
    moreover from Cons.IH[OF continues(3)]
    have "same_but_labels (gh s3) (gh s')" by simp
    ultimately show ?thesis by (rule same_but_labels_trans)
  qed
qed

lemma label_stale_branches_grows:
  assumes "label_stale_branches m s = (r, s')"
  shows "grows (label_driver_call m) (log_uses_cutoff (end_date m)) s s'"
proof -
  from assms have "label_repos m (org_repos (gh s)) (called GetRepos s) = (r, s')"
    by (simp add: label_stale_branches_def get_repos_def)
  then have "grows (label_driver_call m) (log_uses_cutoff (end_date m)) (called GetRepos s) s'"
    by (rule label_repos_grows)
  moreover have "grows (label_driver_call m) (log_uses_cutoff (end_date m)) s (called GetRepos s)"
    by (simp add: grows_called)
  ultimately show ?thesis by (blast intro: grows_trans)
qed

lemma grows_mono:
  assumes "grows P Q s s'" and "\<And>c. P c \<Longrightarrow> P' c" and "\<And>l. Q l \<Longrightarrow> Q' l"
  shows "grows P' Q' s s'"
proof -
  from assms(1) obtain cs ls where
    *: "calls s' = calls s @ cs" "list_all P cs" "logs s' = logs s @ ls" "list_all Q ls"
    unfolding grows_def by blast
  from *(2) assms(2) have "list_all P' cs" by (simp add: list_all_iff)
  moreover from *(4) assms(3) have "list_all Q' ls" by (simp add: list_all_iff)
  ultimately show ?thesis using *(1,3) unfolding grows_def by blast
qed

lemma label_driver_call_not_delete: "label_driver_call m c \<Longrightarrow> \<not> is_delete_ref c"
  by (cases c) simp_all

lemma label_driver_call_mutating:
  "label_driver_call m c \<Longrightarrow> mutating c \<Longrightarrow> \<exists>fn n. c = SetLabels fn n [pending_label]"
  by (cases c) simp_all

text \<open>
  C7.  The label driver deletes no branch: a run of \<open>label_stale_branches\<close> issues no
  reference deletion, and leaves the git references of the world as they were; the only
  calls it issues that change remote state are label applications, and the world it
  leaves differs from the one it found at most in the labels of issues.
\<close>

theorem label_driver_deletes_nothing:
  assumes "label_stale_branches m s = (r, s')"
  shows "git_refs (gh s') = git_refs (gh s)
       \<and> same_but_labels (gh s) (gh s')
       \<and> (\<exists>cs. calls s' = calls s @ cs
             \<and> list_all (\<lambda>c. \<not> is_delete_ref c) cs
             \<and> list_all (\<lambda>c. mutating c \<longrightarrow> (\<exists>fn n. c = SetLabels fn n [pending_label])) cs)"
proof -
  from assms have "label_repos m (org_repos (gh s)) (called GetRepos s) = (r, s')"
    by (simp add: label_stale_branches_def get_repos_def)
  then have "same_but_labels (gh (called GetRepos s)) (gh s')"
    by (rule label_repos_same_but_labels)
  then have w: "same_but_labels (gh s) (gh s')" by simp
  from label_stale_branches_grows[OF assms] obtain cs where
    cs: "calls s' = calls s @ cs" "list_all (label_driver_call m) cs"
    unfolding grows_def by blast
  from cs(2) have "list_all (\<lambda>c. \<not> is_delete_ref c) cs"
    by (auto simp: list_all_iff dest: label_driver_call_not_delete)
  moreover from cs(2)
  have "list_all (\<lambda>c. mutating c \<longrightarrow> (\<exists>fn n. c = SetLabels fn n [pending_label])) cs"
    by (auto simp: list_all_iff dest: label_driver_call_mutating)
  ultimately show ?thesis using w cs(1) by (auto simp: same_but_labels_def)
qed

theorem label_driver_deletes_nothing_witness:
  "fst (label_stale_branches (scenario_manager False) scenario_state) = Inr ()
   \<and> git_refs (gh (snd (label_stale_branches (scenario_manager False) scenario_state)))
       = git_refs (gh scenario_state)
   \<and> same_but_labels (gh scenario_state)
        (gh (snd (label_stale_branches (scenario_manager False) scenario_state)))"
proof -
  let ?X = "label_stale_branches (scenario_manager False) scenario_state"
  have f: "fst ?X = Inr ()" by code_simp
  have e: "?X = (fst ?X, snd ?X)" by simp
  from label_driver_deletes_nothing[OF e] f show ?thesis by simp
qed

section \<open>The delete driver\<close>

lemma get_git_ref_cases:
  assumes "get_git_ref repo path s = (r, s')"
  obtains (found) b where "r = Inr b" "s' = called (GetGitRef (full_name repo) path) s"
      "find (\<lambda>r. ref_repo r = full_name repo \<and> ref_path r = path) (git_refs (gh s)) = Some b"
      "ref_repo b = full_name repo" "ref_path b = path"
  | (missing) "r = Inl UnknownObject" "s' = called (GetGitRef (full_name repo) path) s"
      "find (\<lambda>r. ref_repo r = full_name repo \<and> ref_path r = path) (git_refs (gh s)) = None"
  using assms
  by (auto simp: get_git_ref_def split: option.splits dest: find_Some_iff[THEN iffD1])

lemma delete_ref_cases:
  assumes "delete_ref b s = (r, s')"
  obtains (ok) "r = Inr ()"
      "s' = (called (DeleteRef (ref_repo b) (ref_path b)) s)\<lparr>gh := remove_ref b (gh s)\<rparr>"
  | (missing) "r = Inl UnknownObject" "s' = called (DeleteRef (ref_repo b) (ref_path b)) s"
  using assms by (auto simp: delete_ref_def Let_def split: if_splits)

lemma remove_ref_simps [simp]:
  "issues (remove_ref b w) = issues w" "org_repos (remove_ref b w) = org_repos w"
  "api_token (remove_ref b w) = api_token w" "org_login (remove_ref b w) = org_login w"
  by (simp_all add: remove_ref_def)

text \<open>One branch of the delete loop.\<close>

lemma delete_branches_step:
  assumes "delete_branches m repo (b # rest) s = (r, s')"
  obtains (ref_missing)
      "find (\<lambda>r. ref_repo r = full_name repo \<and> ref_path r = ''heads/'' @ b) (git_refs (gh s)) = None"
      "r = Inl UnknownObject" "s' = called (GetGitRef (full_name repo) (''heads/'' @ b)) s"
  | (dry) g where
      "find (\<lambda>r. ref_repo r = full_name repo \<and> ref_path r = ''heads/'' @ b) (git_refs (gh s)) = Some g"
      "dry_run m"
      "delete_branches m repo rest
         (log_info (LogBranch b (ref_sha g)) (called (GetGitRef (full_name repo) (''heads/'' @ b)) s))
       = (r, s')"
  | (delete_fails) g e s3 where
      "find (\<lambda>r. ref_repo r = full_name repo \<and> ref_path r = ''heads/'' @ b) (git_refs (gh s)) = Some g"
      "\<not> dry_run m"
      "delete_ref g
         (log_info (LogBranch b (ref_sha g)) (called (GetGitRef (full_name repo) (''heads/'' @ b)) s))
       = (Inl e, s3)" "r = Inl e" "s' = s3"
  | (deleted) g s3 where
      "find (\<lambda>r. ref_repo r = full_name repo \<and> ref_path r = ''heads/'' @ b) (git_refs (gh s)) = Some g"
      "ref_repo g = full_name repo" "ref_path g = ''heads/'' @ b"
      "\<not> dry_run m"
      "delete_ref g
         (log_info (LogBranch b (ref_sha g)) (called (GetGitRef (full_name repo) (''heads/'' @ b)) s))
       = (Inr (), s3)"
      "delete_branches m repo rest s3 = (r, s')"
proof -
  obtain r1 s1 where g: "get_git_ref repo (''heads/'' @ b) s = (r1, s1)"
    by (cases "get_git_ref repo (''heads/'' @ b) s")
  from g show thesis
  proof (cases rule: get_git_ref_cases)
    case missing
    with g assms show ?thesis by (intro ref_missing) auto
  next
    case (found g')
    show ?thesis
    proof (cases "dry_run m")
      case True
      with found g assms show ?thesis by (intro dry[of g']) (auto simp: Let_def)
    next
      case False
      let ?s2 = "log_info (LogBranch b (ref_sha g')) (called (GetGitRef (full_name repo) (''heads/'' @ b)) s)"
      obtain r3 s3 where d: "delete_ref g' ?s2 = (r3, s3)" by (cases "delete_ref g' ?s2")
      show ?thesis
      proof (cases r3)
        case (Inl e)
        with found g assms False d show ?thesis
          by (intro delete_fails[of g' e s3]) (auto simp: Let_def)
      next
        case (Inr u)
        with found g assms False d show ?thesis
          by (intro deleted[of g' s3]) (auto simp: Let_def)
      qed
    qed
  qed
qed

lemma delete_ref_grows:
  "delete_ref g s = (r, s') \<Longrightarrow> P (DeleteRef (ref_repo g) (ref_path g)) \<Longrightarrow> grows P Q s s'"
  by (erule delete_ref_cases) (simp_all add: grows_def)

lemma delete_branches_grows:
  "delete_branches m repo brs s = (r, s') \<Longrightarrow>
     grows (delete_driver_call m) (log_uses_cutoff d) s s'"
proof (induction brs arbitrary: s)
  case Nil
  then show ?case by (simp add: grows_refl)
next
  case (Cons b rest)
  let ?P = "delete_driver_call m" and ?Q = "log_uses_cutoff d"
  have g2: "grows ?P ?Q s (log_info (LogBranch b sha) (called (GetGitRef (full_name repo) (''heads/'' @ b)) s))"
    for sha by (simp add: grows_def)
  from Cons.prems show ?case
  proof (cases rule: delete_branches_step)
    case ref_missing
    then show ?thesis by (simp add: grows_called)
  next
    case (dry g)
    from g2 Cons.IH[OF dry(3)] show ?thesis by (rule grows_trans)
  next
    case (delete_fails g e s3)
    from delete_fails(3) have "grows ?P ?Q (log_info (LogBranch b (ref_sha g)) (called (GetGitRef (full_name repo) (''heads/'' @ b)) s)) s3"
      by (rule delete_ref_grows) (simp add: delete_fails(2))
    with g2 delete_fails(5) show ?thesis by (blast intro: grows_trans)
  next
    case (deleted g s3)
    from deleted(5) have "grows ?P ?Q (log_info (LogBranch b (ref_sha g)) (called (GetGitRef (full_name repo) (''heads/'' @ b)) s)) s3"
      by (rule delete_ref_grows) (simp add: deleted(4))
    with g2 Cons.IH[OF deleted(6)] show ?thesis by (blast intro: grows_trans)
  qed
qed

text \<open>One repository of the delete driver.\<close>

lemma delete_repos_step:
  assumes "delete_repos m (repo # rest) s = (r, s')"
  obtains (filter_fails) e s2 where
      "get_prs_branches_to_be_deleted m repo
         (log_info (LogTotalBranches (repo_name repo)
              (length (filter (is_branch_of (full_name repo)) (git_refs (gh s)))))
            (called (GetBranches (full_name repo)) (log_info (LogProcessing (repo_name repo)) s)))
       = (Inl e, s2)" "r = Inl e" "s' = s2"
  | (delete_fails) prs brs s2 e s3 where
      "get_prs_branches_to_be_deleted m repo
         (log_info (LogTotalBranches (repo_name repo)
              (length (filter (is_branch_of (full_name repo)) (git_refs (gh s)))))
            (called (GetBranches (full_name repo)) (log_info (LogProcessing (repo_name repo)) s)))
       = (Inr (prs, brs), s2)"
      "delete_branches m repo brs (log_info (LogDeleting (end_date m) (repo_name repo)) s2)
       = (Inl e, s3)" "r = Inl e" "s' = s3"
  | (continues) prs brs s2 s3 where
      "get_prs_branches_to_be_deleted m repo
         (log_info (LogTotalBranches (repo_name repo)
              (length (filter (is_branch_of (full_name repo)) (git_refs (gh s)))))
            (called (GetBranches (full_name repo)) (log_info (LogProcessing (repo_name repo)) s)))
       = (Inr (prs, brs), s2)"
      "delete_branches m repo brs (log_info (LogDeleting (end_date m) (repo_name repo)) s2)
       = (Inr (), s3)"
      "delete_repos m rest s3 = (r, s')"
  using assms
  by (auto simp: get_branches_totalCount_def split: prod.splits sum.splits)

lemma delete_repos_grows:
  "delete_repos m rs s = (r, s') \<Longrightarrow>
     grows (delete_driver_call m) (log_uses_cutoff (end_date m)) s s'"
proof (induction rs arbitrary: s)
  case Nil
  then show ?case by (simp add: grows_refl)
next
  case (Cons repo rest)
  let ?P = "delete_driver_call m" and ?Q = "log_uses_cutoff (end_date m)"
  let ?s0 = "log_info (LogTotalBranches (repo_name repo)
              (length (filter (is_branch_of (full_name repo)) (git_refs (gh s)))))
            (called (GetBranches (full_name repo)) (log_info (LogProcessing (repo_name repo)) s))"
  have g0: "grows ?P ?Q s ?s0" by (simp add: grows_def)
  have gf: "grows ?P ?Q ?s0 s2" if "get_prs_branches_to_be_deleted m repo ?s0 = (x, s2)" for x s2
    using that by (rule get_prs_driver_grows) simp_all
  have gl: "grows ?P ?Q s2 (log_info (LogDeleting (end_date m) (repo_name repo)) s2)" for s2
    by (simp add: grows_log)
  from Cons.prems show ?case
  proof (cases rule: delete_repos_step)
    case (filter_fails e s2)
    with g0 gf show ?thesis by (blast intro: grows_trans)
  next
    case (delete_fails prs brs s2 e s3)
    from delete_fails(2)
    have "grows ?P ?Q (log_info (LogDeleting (end_date m) (repo_name repo)) s2) s3"
      by (rule delete_branches_grows)
    with g0 gf[OF delete_fails(1)] gl[of s2] delete_fails(4) show ?thesis
      by (blast intro: grows_trans)
  next
    case (continues prs brs s2 s3)
    from continues(2)
    have "grows ?P ?Q (log_info (LogDeleting (end_date m) (repo_name repo)) s2) s3"
      by (rule delete_branches_grows)
    moreover from continues(3) have "grows ?P ?Q s3 s'" by (rule Cons.IH)
    ultimately show ?thesis using g0 gf[OF continues(1)] gl[of s2] by (blast intro: grows_trans)
  qed
qed

lemma delete_stale_branches_grows:
  assumes "delete_stale_branches m s = (r, s')"
  shows "grows (delete_driver_call m) (log_uses_cutoff (end_date m)) s s'"
proof -
  from assms have "delete_repos m (org_repos (gh s)) (called GetRepos s) = (r, s')"
    by (simp add: delete_stale_branches_def get_repos_def)
  then have "grows (delete_driver_call m) (log_uses_cutoff (end_date m)) (called GetRepos s) s'"
    by (rule delete_repos_grows)
  moreover have "grows (delete_driver_call m) (log_uses_cutoff (end_date m)) s (called GetRepos s)"
    by (simp add: grows_called)
  ultimately show ?thesis by (blast intro: grows_trans)
qed

lemma label_driver_call_cutoff: "label_driver_call m c \<Longrightarrow> call_uses_cutoff (end_date m) c"
  by (cases c) simp_all

lemma delete_driver_call_cutoff: "delete_driver_call m c \<Longrightarrow> call_uses_cutoff (end_date m) c"
  by (cases c) simp_all

text \<open>
  C9.  The cutoff is the value initialization computes from the day and the period, and
  a run of either driver with the initialized manager uses it throughout: every search
  the run issues, for every repository, names that cutoff and no other, and so does
  every log record of the run that mentions a cutoff.  The drivers take the manager as a
  value and have no way to change it.
\<close>

theorem cutoff_fixed_for_run:
  assumes "init tok name p dry today s0 = (Inr m, s)"
    and "label_stale_branches m s = (r, s') \<or> delete_stale_branches m s = (r, s')"
  shows "date_sub today (mk_relativedelta 0 p) = Inr (end_date m)
       \<and> (\<exists>cs ls. calls s' = calls s @ cs \<and> logs s' = logs s @ ls
             \<and> list_all (call_uses_cutoff (end_date m)) cs
             \<and> list_all (log_uses_cutoff (end_date m)) ls)"
proof -
  from assms(2) have "grows (call_uses_cutoff (end_date m)) (log_uses_cutoff (end_date m)) s s'"
  proof
    assume "label_stale_branches m s = (r, s')"
    then have "grows (label_driver_call m) (log_uses_cutoff (end_date m)) s s'"
      by (rule label_stale_branches_grows)
    then show ?thesis by (rule grows_mono) (simp_all add: label_driver_call_cutoff)
  next
    assume "delete_stale_branches m s = (r, s')"
    then have "grows (delete_driver_call m) (log_uses_cutoff (end_date m)) s s'"
      by (rule delete_stale_branches_grows)
    then show ?thesis by (rule grows_mono) (simp_all add: delete_driver_call_cutoff)
  qed
  with init_Inr(1)[OF assms(1)] show ?thesis unfolding grows_def by blast
qed

theorem cutoff_fixed_for_run_witness:
  "fst (init ''t'' ''acme'' 12 False 739000 scenario_state) = Inr (scenario_manager False)
   \<and> date_sub 739000 (mk_relativedelta 0 12) = Inr (end_date (scenario_manager False))
   \<and> (\<exists>cs ls.
         calls (snd (delete_stale_branches (scenario_manager False)
                      (snd (init ''t'' ''acme'' 12 False 739000 scenario_state))))
           = calls (snd (init ''t'' ''acme'' 12 False 739000 scenario_state)) @ cs
         \<and> logs (snd (delete_stale_branches (scenario_manager False)
                      (snd (init ''t'' ''acme'' 12 False 739000 scenario_state))))
           = logs (snd (init ''t'' ''acme'' 12 False 739000 scenario_state)) @ ls
         \<and> list_all (call_uses_cutoff (end_date (scenario_manager False))) cs
         \<and> list_all (log_uses_cutoff (end_date (scenario_manager False))) ls)"
proof -
  let ?I = "init ''t'' ''acme'' 12 False 739000 scenario_state"
  let ?X = "delete_stale_branches (scenario_manager False) (snd ?I)"
  have f: "fst ?I = Inr (scenario_manager False)"
    by (simp add: init_def get_organization_def date_sub_def date_add_def rd_neg_def
          mk_relativedelta_def has_time_def max_ordinal_def scenario_defs)
  then have e: "?I = (Inr (scenario_manager False), snd ?I)"
    by (metis prod.collapse)
  have x: "?X = (fst ?X, snd ?X)" by simp
  from cutoff_fixed_for_run[OF e disjI2[OF x]] f show ?thesis by simp
qed

section \<open>Errors in the delete driver\<close>

lemma collect_branches_fst:
  "gh s1 = gh s2 \<Longrightarrow>
     fst (collect_branches xs prs brs s1) = fst (collect_branches xs prs brs s2)"
proof (induction xs arbitrary: prs brs s1 s2)
  case Nil
  then show ?case by simp
next
  case (Cons x xs)
  show ?case
  proof (cases "fetch_pull (gh s2) (issue_url x)")
    case (Inl e)
    with Cons.prems show ?thesis by (simp add: as_pull_request_def)
  next
    case (Inr p)
    let ?c = "AsPullRequest (issue_repo x) (issue_number x)"
    from Cons.prems have "gh (called ?c s1) = gh (called ?c s2)" by simp
    from Cons.IH[OF this] Inr Cons.prems show ?thesis by (simp add: as_pull_request_def)
  qed
qed

lemma get_prs_fst:
  "gh s1 = gh s2 \<Longrightarrow>
     fst (get_prs_branches_to_be_deleted m repo s1) = fst (get_prs_branches_to_be_deleted m repo s2)"
proof -
  assume g: "gh s1 = gh s2"
  let ?t = "\<lambda>s. log_info (LogGetting (repo_name repo))
             (called (SearchIssues (query_issues_labelled_do_not_delete m repo))
               (called (SearchIssues (query_older_issues m repo)) s))"
  from g have "gh (?t s1) = gh (?t s2)" by simp
  then have "fst (collect_branches (candidates m repo (gh s2)) [] [] (?t s1))
      = fst (collect_branches (candidates m repo (gh s2)) [] [] (?t s2))"
    by (rule collect_branches_fst)
  with g show ?thesis by (simp add: get_prs_unfold)
qed

lemma delete_ref_error: "delete_ref g s = (Inl e, s') \<Longrightarrow> e = UnknownObject"
  by (erule delete_ref_cases) simp_all

lemma find_filter_None: "find P xs = None \<Longrightarrow> find P (filter Q xs) = None"
  by (simp add: find_None_iff)

lemma delete_branches_missing:
  assumes "delete_branches m repo brs s = (r, s')" and "b \<in> set brs"
    and "find (\<lambda>r. ref_repo r = full_name repo \<and> ref_path r = ''heads/'' @ b) (git_refs (gh s)) = None"
  shows "r = Inl UnknownObject"
  using assms
proof (induction brs arbitrary: s)
  case Nil
  then show ?case by simp
next
  case (Cons b0 rest)
  from Cons.prems(1) show ?case
  proof (cases rule: delete_branches_step)
    case ref_missing
    then show ?thesis by simp
  next
    case (dry g)
    with Cons.prems(2,3) have "b \<in> set rest" by auto
    with Cons.IH[OF dry(3)] Cons.prems(3) show ?thesis by simp
  next
    case (delete_fails g e s3)
    then show ?thesis by (simp add: delete_ref_error)
  next
    case (deleted g s3)
    with Cons.prems(2,3) have b: "b \<in> set rest" by auto
    from deleted(5) have "git_refs (gh s3) = git_refs (remove_ref g (gh s))"
      by (rule delete_ref_cases) simp_all
    with Cons.prems(3)
    have "find (\<lambda>r. ref_repo r = full_name repo \<and> ref_path r = ''heads/'' @ b) (git_refs (gh s3)) = None"
      by (simp add: remove_ref_def find_filter_None)
    with Cons.IH[OF deleted(6) b] show ?thesis by simp
  qed
qed

lemma delete_repos_abort:
  "fst (delete_repos m [repo] s) = Inl e \<Longrightarrow>
     delete_repos m (repo # rest) s = delete_repos m [repo] s"
  by (auto simp: get_branches_totalCount_def split: prod.splits sum.splits)

text \<open>
  C5, as the code has it.  Resolving a candidate branch whose reference no longer exists
  ends the run: the branch loop returns the gateway's not-found error at that branch,
  having logged nothing for it and leaving the branches after it untouched; and when a
  candidate branch of a repository has no reference, the driver returns the not-found
  error while processing that repository and does not process the repositories after
  it.
\<close>

theorem missing_ref_aborts_run:
  assumes "find (\<lambda>r. ref_repo r = full_name repo \<and> ref_path r = ''heads/'' @ b)
             (git_refs (gh s)) = None"
  shows "delete_branches m repo (b # bs) s
           = (Inl UnknownObject, called (GetGitRef (full_name repo) (''heads/'' @ b)) s)
       \<and> (\<forall>prs brs rest.
             fst (get_prs_branches_to_be_deleted m repo s) = Inr (prs, brs) \<and> b \<in> set brs
             \<longrightarrow> fst (delete_repos m (repo # rest) s) = Inl UnknownObject
                 \<and> delete_repos m (repo # rest) s = delete_repos m [repo] s)"
proof (intro conjI allI impI)
  from assms show "delete_branches m repo (b # bs) s
           = (Inl UnknownObject, called (GetGitRef (full_name repo) (''heads/'' @ b)) s)"
    by (simp add: get_git_ref_def)
next
  fix prs brs rest
  assume a: "fst (get_prs_branches_to_be_deleted m repo s) = Inr (prs, brs) \<and> b \<in> set brs"
  let ?s0 = "log_info (LogTotalBranches (repo_name repo)
              (length (filter (is_branch_of (full_name repo)) (git_refs (gh s)))))
            (called (GetBranches (full_name repo)) (log_info (LogProcessing (repo_name repo)) s))"
  have "fst (get_prs_branches_to_be_deleted m repo ?s0) = fst (get_prs_branches_to_be_deleted m repo s)"
    by (rule get_prs_fst) simp
  with a have f0: "fst (get_prs_branches_to_be_deleted m repo ?s0) = Inr (prs, brs)" by simp
  obtain r s' where run: "delete_repos m (repo # rest) s = (r, s')"
    by (cases "delete_repos m (repo # rest) s")
  from run have r: "r = Inl UnknownObject"
  proof (cases rule: delete_repos_step)
    case (filter_fails e s2)
    with f0 show ?thesis by simp
  next
    case (delete_fails prs' brs' s2 e s3)
    with f0 have "brs' = brs" by simp
    from get_prs_gh[OF delete_fails(1)] assms
    have "find (\<lambda>r. ref_repo r = full_name repo \<and> ref_path r = ''heads/'' @ b)
             (git_refs (gh (log_info (LogDeleting (end_date m) (repo_name repo)) s2))) = None"
      by simp
    from delete_branches_missing[OF delete_fails(2) _ this] a \<open>brs' = brs\<close> delete_fails(3)
    show ?thesis by simp
  next
    case (continues prs' brs' s2 s3)
    with f0 have "brs' = brs" by simp
    from get_prs_gh[OF continues(1)] assms
    have "find (\<lambda>r. ref_repo r = full_name repo \<and> ref_path r = ''heads/'' @ b)
             (git_refs (gh (log_info (LogDeleting (end_date m) (repo_name repo)) s2))) = None"
      by simp
    from delete_branches_missing[OF continues(2) _ this] a \<open>brs' = brs\<close>
    show ?thesis by simp
  qed
  with run show "fst (delete_repos m (repo # rest) s) = Inl UnknownObject" by simp
  obtain r1 s1 where run1: "delete_repos m [repo] s = (r1, s1)"
    by (cases "delete_repos m [repo] s")
  from run1 have "r1 = Inl UnknownObject"
  proof (cases rule: delete_repos_step)
    case (filter_fails e s2)
    with f0 show ?thesis by simp
  next
    case (delete_fails prs' brs' s2 e s3)
    with f0 have "brs' = brs" by simp
    from get_prs_gh[OF delete_fails(1)] assms
    have "find (\<lambda>r. ref_repo r = full_name repo \<and> ref_path r = ''heads/'' @ b)
             (git_refs (gh (log_info (LogDeleting (end_date m) (repo_name repo)) s2))) = None"
      by simp
    from delete_branches_missing[OF delete_fails(2) _ this] a \<open>brs' = brs\<close> delete_fails(3)
    show ?thesis by simp
  next
    case (continues prs' brs' s2 s3)
    with f0 have "brs' = brs" by simp
    from get_prs_gh[OF continues(1)] assms
    have "find (\<lambda>r. ref_repo r = full_name repo \<and> ref_path r = ''heads/'' @ b)
             (git_refs (gh (log_info (LogDeleting (end_date m) (repo_name repo)) s2))) = None"
      by simp
    from delete_branches_missing[OF continues(2) _ this] a \<open>brs' = brs\<close>
    show ?thesis by simp
  qed
  with run1 have "fst (delete_repos m [repo] s) = Inl UnknownObject" by simp
  then show "delete_repos m (repo # rest) s = delete_repos m [repo] s"
    by (rule delete_repos_abort)
qed

theorem missing_ref_aborts_run_witness:
  "find (\<lambda>r. ref_repo r = full_name app_repo \<and> ref_path r = ''heads/'' @ ''fa'')
        (git_refs (gh scenario_state_gone)) = None
   \<and> delete_branches (scenario_manager False) app_repo [''fa'', ''fc''] scenario_state_gone
       = (Inl UnknownObject, called (GetGitRef (full_name app_repo) (''heads/'' @ ''fa'')) scenario_state_gone)
   \<and> fst (get_prs_branches_to_be_deleted (scenario_manager False) app_repo scenario_state_gone)
       = Inr ([pull_of pr1 ''fa'', pull_of pr3 ''fc''], [''fa'', ''fc''])
   \<and> fst (delete_repos (scenario_manager False) [app_repo, lib_repo] scenario_state_gone)
       = Inl UnknownObject
   \<and> delete_repos (scenario_manager False) [app_repo, lib_repo] scenario_state_gone
       = delete_repos (scenario_manager False) [app_repo] scenario_state_gone"
proof -
  have m: "find (\<lambda>r. ref_repo r = full_name app_repo \<and> ref_path r = ''heads/'' @ ''fa'')
        (git_refs (gh scenario_state_gone)) = None"
    by (simp add: scenario_state_gone_def scenario_defs)
  have f: "fst (get_prs_branches_to_be_deleted (scenario_manager False) app_repo scenario_state_gone)
       = Inr ([pull_of pr1 ''fa'', pull_of pr3 ''fc''], [''fa'', ''fc''])"
    by code_simp
  from missing_ref_aborts_run[OF m, of "scenario_manager False" "[''fc'']"] m f
  show ?thesis by simp
qed

theorem missing_ref_not_skipped_counterexample:
  "fst (delete_stale_branches (scenario_manager False) scenario_state_gone) = Inl UnknownObject
   \<and> logs (snd (delete_stale_branches (scenario_manager False) scenario_state_gone))
       = [LogProcessing ''app'', LogTotalBranches ''app'' 3, LogGetting ''app'',
          LogDeleting (DateTime 738999 12) ''app'']
   \<and> git_refs (gh (snd (delete_stale_branches (scenario_manager False) scenario_state_gone)))
       = git_refs (gh scenario_state_gone)
   \<and> list_ex (\<lambda>r. ref_repo r = ''acme/app'' \<and> ref_path r = ''heads/fc'')
        (git_refs (gh (snd (delete_stale_branches (scenario_manager False) scenario_state_gone))))
   \<and> list_ex (\<lambda>r. ref_repo r = ''acme/lib'' \<and> ref_path r = ''heads/fx'')
        (git_refs (gh (snd (delete_stale_branches (scenario_manager False) scenario_state_gone))))"
  by code_simp

section \<open>Worlds that differ in labels only\<close>

lemma unlabel_simps [simp]:
  "issue_repo (unlabel i) = issue_repo i" "issue_number (unlabel i) = issue_number i"
  "created_at (unlabel i) = created_at i" "is_open (unlabel i) = is_open i"
  "head_ref (unlabel i) = head_ref i" "issue_url (unlabel i) = issue_url i"
  "protected (unlabel i) = protected i"
  by (simp_all add: unlabel_def issue_url_def protected_def)

lemma pull_of_unlabel [simp]: "pull_of (unlabel i) b = pull_of i b"
  by (simp add: pull_of_def)

lemma lsim_refl: "lsim w w"
  by (simp add: lsim_def)

lemma lsim_sym: "lsim w w' \<Longrightarrow> lsim w' w"
  by (simp add: lsim_def)

lemma lsim_trans: "lsim w w1 \<Longrightarrow> lsim w1 w2 \<Longrightarrow> lsim w w2"
  by (simp add: lsim_def)

lemma lsim_urls: "lsim w w' \<Longrightarrow> map issue_url (issues w') = map issue_url (issues w)"
proof -
  assume "lsim w w'"
  then have "map issue_url (map unlabel (issues w')) = map issue_url (map unlabel (issues w))"
    by (simp add: lsim_def)
  then show ?thesis by (simp add: comp_def)
qed

lemma lsim_wf: "lsim w w' \<Longrightarrow> wf_world w \<Longrightarrow> wf_world w'"
  by (simp add: wf_world_def lsim_urls)

lemma matches_older_unlabel:
  "list_all (\<lambda>c. matches c (unlabel i)) (query_older_issues m repo)
     = list_all (\<lambda>c. matches c i) (query_older_issues m repo)"
  by (simp add: query_older_issues_def)

lemma matches_protected_unlabel:
  "list_all (\<lambda>c. matches c (unlabel i)) (query_issues_labelled_do_not_delete m repo)
     = list_all (\<lambda>c. matches c i) (query_issues_labelled_do_not_delete m repo)"
  by (simp add: query_issues_labelled_do_not_delete_def unlabel_def protected_def)

lemma filter_through_map:
  assumes "\<And>x. P (f x) = P x" and "map f xs = map f ys"
  shows "map f (filter P xs) = map f (filter P ys)"
proof -
  have "map f (filter P zs) = filter P (map f zs)" for zs
    by (induction zs) (simp_all add: assms(1))
  with assms(2) show ?thesis by simp
qed

lemma lsim_matching_older:
  "lsim w w' \<Longrightarrow>
     map unlabel (matching (query_older_issues m repo) w')
       = map unlabel (matching (query_older_issues m repo) w)"
  unfolding matching_def lsim_def
  by (intro filter_through_map) (simp_all add: matches_older_unlabel)

lemma lsim_matching_protected:
  "lsim w w' \<Longrightarrow>
     map unlabel (matching (query_issues_labelled_do_not_delete m repo) w')
       = map unlabel (matching (query_issues_labelled_do_not_delete m repo) w)"
  unfolding matching_def lsim_def
  by (intro filter_through_map) (simp_all add: matches_protected_unlabel)

lemma py_in_urls: "py_in x ys = (issue_url x \<in> set (map issue_url ys))"
  by (auto simp: py_in_def list_ex_iff issue_eq_def)

lemma map_unlabel_urls:
  "map unlabel xs = map unlabel ys \<Longrightarrow> map issue_url xs = map issue_url ys"
proof -
  assume "map unlabel xs = map unlabel ys"
  then have "map issue_url (map unlabel xs) = map issue_url (map unlabel ys)" by simp
  then show ?thesis by (simp add: comp_def)
qed

lemma lsim_candidates:
  assumes "lsim w w'"
  shows "map unlabel (candidates m repo w') = map unlabel (candidates m repo w)"
proof -
  let ?d = "matching (query_issues_labelled_do_not_delete m repo) w"
  let ?d' = "matching (query_issues_labelled_do_not_delete m repo) w'"
  from lsim_matching_protected[OF assms] have "map issue_url ?d' = map issue_url ?d"
    by (rule map_unlabel_urls)
  then have p: "py_in x ?d' = py_in x ?d" for x by (simp add: py_in_urls)
  have "map unlabel (filter (\<lambda>x. \<not> py_in x ?d) (matching (query_older_issues m repo) w'))
      = map unlabel (filter (\<lambda>x. \<not> py_in x ?d) (matching (query_older_issues m repo) w))"
    using lsim_matching_older[OF assms]
    by (intro filter_through_map) (simp_all add: py_in_urls)
  then show ?thesis by (simp add: candidates_def issues_to_be_removed_def p)
qed

lemma candidates_end_date:
  "end_date m1 = end_date m2 \<Longrightarrow> candidates m1 repo w = candidates m2 repo w"
  by (simp add: candidates_def query_older_issues_def query_issues_labelled_do_not_delete_def)

lemma find_through_map:
  assumes "\<And>x. P (f x) = P x" and "map f xs = map f ys"
  shows "map_option f (find P xs) = map_option f (find P ys)"
proof -
  have "map_option f (find P zs) = find P (map f zs)" for zs
    by (induction zs) (simp_all add: assms(1))
  with assms(2) show ?thesis by simp
qed

lemma fetch_pull_via_unlabel:
  "fetch_pull w u =
     (case map_option unlabel (find (\<lambda>i. issue_url i = u) (issues w)) of
        None \<Rightarrow> Inl UnknownObject
      | Some i \<Rightarrow> (case head_ref i of None \<Rightarrow> Inl UnknownObject | Some b \<Rightarrow> Inr (pull_of i b)))"
  by (simp add: fetch_pull_def split: option.splits)

lemma lsim_fetch_pull: "lsim w w' \<Longrightarrow> fetch_pull w' u = fetch_pull w u"
proof -
  assume "lsim w w'"
  then have "map unlabel (issues w') = map unlabel (issues w)" by (simp add: lsim_def)
  then have "map_option unlabel (find (\<lambda>i. issue_url i = u) (issues w'))
      = map_option unlabel (find (\<lambda>i. issue_url i = u) (issues w))"
    by (intro find_through_map) simp_all
  then show ?thesis by (simp only: fetch_pull_via_unlabel)
qed

lemma collect_branches_cong:
  assumes "map issue_url xs1 = map issue_url xs2"
    and "\<And>u. fetch_pull (gh s1) u = fetch_pull (gh s2) u"
  shows "fst (collect_branches xs1 prs brs s1) = fst (collect_branches xs2 prs brs s2)"
  using assms
proof (induction xs1 arbitrary: xs2 prs brs s1 s2)
  case Nil
  then show ?case by simp
next
  case (Cons x xs1)
  then obtain y ys where xs2: "xs2 = y # ys" and u: "issue_url x = issue_url y"
    and rest: "map issue_url xs1 = map issue_url ys" by (cases xs2) auto
  show ?case
  proof (cases "fetch_pull (gh s2) (issue_url y)")
    case (Inl e)
    with Cons.prems(2) u xs2 show ?thesis by (simp add: as_pull_request_def)
  next
    case (Inr p)
    let ?c1 = "AsPullRequest (issue_repo x) (issue_number x)"
    let ?c2 = "AsPullRequest (issue_repo y) (issue_number y)"
    have "fetch_pull (gh (called ?c1 s1)) v = fetch_pull (gh (called ?c2 s2)) v" for v
      using Cons.prems(2) by simp
    from Cons.IH[OF rest this] Inr Cons.prems(2) u xs2 show ?thesis
      by (simp add: as_pull_request_def)
  qed
qed

lemma lsim_get_prs:
  assumes "lsim (gh s1) (gh s2)" and "end_date m1 = end_date m2"
  shows "fst (get_prs_branches_to_be_deleted m1 repo s1)
       = fst (get_prs_branches_to_be_deleted m2 repo s2)"
proof -
  from assms(1) have l: "lsim (gh s2) (gh s1)" by (rule lsim_sym)
  have "map unlabel (candidates m1 repo (gh s1)) = map unlabel (candidates m2 repo (gh s2))"
    using lsim_candidates[OF l, of m1 repo] candidates_end_date[OF assms(2)] by simp
  then have c: "map issue_url (candidates m1 repo (gh s1)) = map issue_url (candidates m2 repo (gh s2))"
    by (rule map_unlabel_urls)
  show ?thesis unfolding get_prs_unfold
    by (rule collect_branches_cong[OF c]) (simp add: lsim_fetch_pull[OF l])
qed

lemma get_prs_logs:
  "get_prs_branches_to_be_deleted m repo s = (r, s') \<Longrightarrow>
     logs s' = logs s @ [LogGetting (repo_name repo)]"
  by (auto simp: get_prs_unfold dest: collect_branches_frame)

section \<open>Relabelling\<close>

lemma relabel_simps [simp]:
  "git_refs (relabel U w) = git_refs w" "org_repos (relabel U w) = org_repos w"
  "api_token (relabel U w) = api_token w" "org_login (relabel U w) = org_login w"
  by (simp_all add: relabel_def)

lemma relabel_empty [simp]: "relabel {} w = w"
  by (simp add: relabel_def)

lemma relabel_relabel: "relabel V (relabel U w) = relabel (U \<union> V) w"
  by (auto simp: relabel_def issue_url_def)

lemma put_labels_relabel: "put_labels u [pending_label] w = relabel {u} w"
  by (simp add: put_labels_def relabel_def)

lemma relabel_urls: "map issue_url (issues (relabel U w)) = map issue_url (issues w)"
  by (simp add: relabel_def issue_url_def comp_def)

lemma pending_not_protective: "pending_label \<noteq> protective_label"
  by (simp add: pending_label_def protective_label_def)

lemma lsim_relabel:
  assumes "\<And>i. i \<in> set (issues w) \<Longrightarrow> issue_url i \<in> U \<Longrightarrow> \<not> protected i"
  shows "lsim w (relabel U w)"
proof -
  have "unlabel (if issue_url i \<in> U then i\<lparr>labels := [pending_label]\<rparr> else i) = unlabel i"
    if "i \<in> set (issues w)" for i
    using assms[OF that] pending_not_protective by (auto simp: unlabel_def protected_def)
  then show ?thesis by (simp add: lsim_def relabel_def)
qed

lemma lsim_protected:
  assumes "lsim w w'"
  shows "(\<exists>i \<in> set (issues w'). issue_url i = u \<and> protected i)
       = (\<exists>i \<in> set (issues w). issue_url i = u \<and> protected i)"
proof -
  have e: "(\<exists>i \<in> set (issues v). issue_url i = u \<and> protected i)
      = (\<exists>j \<in> set (map unlabel (issues v)). issue_url j = u \<and> protected j)" for v
    by auto
  from assms have "map unlabel (issues w') = map unlabel (issues w)" by (simp add: lsim_def)
  then show ?thesis unfolding e[of w'] e[of w] by (rule arg_cong)
qed

section \<open>The label loop on the filter's output\<close>

lemma fetch_pull_relabel: "fetch_pull (relabel U w) v = fetch_pull w v"
proof -
  let ?g = "\<lambda>i. if issue_url i \<in> U then i\<lparr>labels := [pending_label]\<rparr> else i"
  have u: "issue_url (?g i) = issue_url i" for i by (simp add: issue_url_def)
  have "find (\<lambda>i. issue_url i = v) (map ?g xs) = map_option ?g (find (\<lambda>i. issue_url i = v) xs)" for xs
    by (induction xs) (simp_all add: issue_url_def)
  then have f: "find (\<lambda>i. issue_url i = v) (issues (relabel U w))
      = map_option ?g (find (\<lambda>i. issue_url i = v) (issues w))"
    by (simp add: relabel_def)
  show ?thesis unfolding fetch_pull_def f
    by (cases "find (\<lambda>i. issue_url i = v) (issues w)")
       (simp_all add: pull_of_def split: option.splits)
qed

lemma fetch_pull_known: "fetch_pull w u = Inr p \<Longrightarrow> u \<in> issue_url ` set (issues w)"
  by (erule fetch_pull_Inr) auto

lemma label_prs_exact:
  assumes "label_prs m repo prs bl s = (r, s')"
    and "\<And>p. p \<in> set prs \<Longrightarrow> fetch_pull (gh s) (full_name repo, pr_number p) = Inr p"
  shows "r = Inr (bl @ (if dry_run m then [] else map pr_head_ref prs))
       \<and> gh s' = relabel (if dry_run m then {} else (\<lambda>p. (full_name repo, pr_number p)) ` set prs) (gh s)
       \<and> logs s' = logs s @ map (\<lambda>p. LogApplying (pr_number p) (repo_name repo)) prs"
  using assms
proof (induction prs arbitrary: bl s)
  case Nil
  then show ?case by simp
next
  case (Cons pr rest)
  let ?u = "(full_name repo, pr_number pr)"
  let ?s1 = "called (GetPull (full_name repo) (pr_number pr)) s"
  let ?s2 = "log_info (LogApplying (pr_number pr) (repo_name repo)) ?s1"
  have f: "fetch_pull (gh s) ?u = Inr pr" by (rule Cons.prems(2)) simp
  show ?case
  proof (cases "dry_run m")
    case True
    with f Cons.prems(1) have run: "label_prs m repo rest bl ?s2 = (r, s')"
      by (simp add: get_pull_def)
    have "fetch_pull (gh ?s2) (full_name repo, pr_number p) = Inr p" if "p \<in> set rest" for p
      using Cons.prems(2)[of p] that by simp
    from Cons.IH[OF run this] True show ?thesis by simp
  next
    case False
    let ?s3 = "(called (SetLabels (pr_repo pr) (pr_number pr) [pending_label]) ?s2)\<lparr>gh := relabel {?u} (gh s)\<rparr>"
    from f have pu: "pr_url pr = ?u" by (rule fetch_pull_url)
    from f have "?u \<in> issue_url ` set (issues (gh s))" by (rule fetch_pull_known)
    with pu have sl: "set_labels pr [pending_label] ?s2 = (Inr (), ?s3)"
      by (simp add: set_labels_def Let_def put_labels_relabel)
    with f False Cons.prems(1)
    have run: "label_prs m repo rest (bl @ [pr_head_ref pr]) ?s3 = (r, s')"
      by (simp add: get_pull_def)
    have "fetch_pull (gh ?s3) (full_name repo, pr_number p) = Inr p" if "p \<in> set rest" for p
      using Cons.prems(2)[of p] that by (simp add: fetch_pull_relabel)
    from Cons.IH[OF run this] False show ?thesis
      by (simp add: relabel_relabel)
  qed
qed

lemma get_prs_fetchable:
  assumes "get_prs_branches_to_be_deleted m repo s = (Inr (prs, brs), s')"
  shows "\<And>p. p \<in> set prs \<Longrightarrow> fetch_pull (gh s) (full_name repo, pr_number p) = Inr p"
    and "(\<lambda>p. (full_name repo, pr_number p)) ` set prs = issue_url ` set (candidates m repo (gh s))"
proof -
  note m = get_prs_Inr(2)[OF assms]
  have k: "(full_name repo, pr_number p) = issue_url x"
    if "x \<in> set (candidates m repo (gh s))" "fetch_pull (gh s) (issue_url x) = Inr p" for x p
  proof -
    from that(2) have "pr_url p = issue_url x" by (rule fetch_pull_url)
    with candidates_D(2)[OF that(1)] show ?thesis by (simp add: pr_url_def issue_url_def)
  qed
  show "fetch_pull (gh s) (full_name repo, pr_number p) = Inr p" if "p \<in> set prs" for p
  proof -
    from m that obtain x where x: "x \<in> set (candidates m repo (gh s))"
      "fetch_pull (gh s) (issue_url x) = Inr p" by (rule fetched_member)
    with k[OF x] show ?thesis by simp
  qed
  show "(\<lambda>p. (full_name repo, pr_number p)) ` set prs = issue_url ` set (candidates m repo (gh s))"
  proof (intro set_eqI iffI)
    fix u
    assume "u \<in> (\<lambda>p. (full_name repo, pr_number p)) ` set prs"
    then obtain p where p: "p \<in> set prs" "u = (full_name repo, pr_number p)" by auto
    from m p(1) obtain x where x: "x \<in> set (candidates m repo (gh s))"
      "fetch_pull (gh s) (issue_url x) = Inr p" by (rule fetched_member)
    with k[OF x] p(2) show "u \<in> issue_url ` set (candidates m repo (gh s))" by auto
  next
    fix u
    assume "u \<in> issue_url ` set (candidates m repo (gh s))"
    then obtain x where x: "x \<in> set (candidates m repo (gh s))" "u = issue_url x" by auto
    from x(1) have "fetch_pull (gh s) (issue_url x) \<in> set (map (\<lambda>x. fetch_pull (gh s) (issue_url x)) (candidates m repo (gh s)))"
      by simp
    with m obtain p where p: "p \<in> set prs" "fetch_pull (gh s) (issue_url x) = Inr p" by auto
    from k[OF x(1) p(2)] x(2) have "u = (full_name repo, pr_number p)" by simp
    with p(1) show "u \<in> (\<lambda>p. (full_name repo, pr_number p)) ` set prs" by (rule rev_image_eqI)
  qed
qed

lemma label_repos_Cons_Inl:
  assumes "fst (get_prs_branches_to_be_deleted m repo s) = Inl e"
  shows "\<exists>s2. label_repos m (repo # rest) s = (Inl e, s2) \<and> gh s2 = gh s
           \<and> logs s2 = logs s @ [LogProcessing (repo_name repo),
                 LogTotalBranches (repo_name repo)
                   (length (filter (is_branch_of (full_name repo)) (git_refs (gh s)))),
                 LogGetting (repo_name repo)]"
proof -
  let ?s0 = "log_info (LogTotalBranches (repo_name repo)
              (length (filter (is_branch_of (full_name repo)) (git_refs (gh s)))))
            (called (GetBranches (full_name repo)) (log_info (LogProcessing (repo_name repo)) s))"
  let ?G = "get_prs_branches_to_be_deleted m repo ?s0"
  have "fst ?G = fst (get_prs_branches_to_be_deleted m repo s)" by (rule get_prs_fst) simp
  with assms obtain s2 where g: "?G = (Inl e, s2)" by (metis prod.collapse)
  from get_prs_gh[OF g] get_prs_logs[OF g]
  have "gh s2 = gh s" and "logs s2 = logs s @ [LogProcessing (repo_name repo),
                 LogTotalBranches (repo_name repo)
                   (length (filter (is_branch_of (full_name repo)) (git_refs (gh s)))),
                 LogGetting (repo_name repo)]" by simp_all
  moreover have "label_repos m (repo # rest) s = (Inl e, s2)"
    using g by (simp add: get_branches_totalCount_def)
  ultimately show ?thesis by blast
qed

lemma label_repos_Cons_Inr:
  assumes "fst (get_prs_branches_to_be_deleted m repo s) = Inr (prs, brs)"
  shows "\<exists>s4. label_repos m (repo # rest) s = label_repos m rest s4
           \<and> gh s4 = relabel (if dry_run m then {} else issue_url ` set (candidates m repo (gh s))) (gh s)
           \<and> logs s4 = logs s @ [LogProcessing (repo_name repo),
                 LogTotalBranches (repo_name repo)
                   (length (filter (is_branch_of (full_name repo)) (git_refs (gh s)))),
                 LogGetting (repo_name repo)]
               @ map (\<lambda>p. LogApplying (pr_number p) (repo_name repo)) prs
               @ [LogBranchesLabeled (repo_name repo) (if dry_run m then [] else brs)]"
proof -
  let ?s0 = "log_info (LogTotalBranches (repo_name repo)
              (length (filter (is_branch_of (full_name repo)) (git_refs (gh s)))))
            (called (GetBranches (full_name repo)) (log_info (LogProcessing (repo_name repo)) s))"
  let ?G = "get_prs_branches_to_be_deleted m repo ?s0"
  have "fst ?G = fst (get_prs_branches_to_be_deleted m repo s)" by (rule get_prs_fst) simp
  with assms obtain s2 where g: "?G = (Inr (prs, brs), s2)" by (metis prod.collapse)
  from get_prs_gh[OF g] have w2: "gh s2 = gh s" by simp
  from get_prs_logs[OF g] have l2: "logs s2 = logs s @ [LogProcessing (repo_name repo),
                 LogTotalBranches (repo_name repo)
                   (length (filter (is_branch_of (full_name repo)) (git_refs (gh s)))),
                 LogGetting (repo_name repo)]" by simp
  from get_prs_Inr(1)[OF g] have b: "brs = map pr_head_ref prs" .
  have fp: "fetch_pull (gh s2) (full_name repo, pr_number p) = Inr p" if "p \<in> set prs" for p
    using get_prs_fetchable(1)[OF g that] w2 by simp
  from get_prs_fetchable(2)[OF g]
  have t: "(\<lambda>p. (full_name repo, pr_number p)) ` set prs = issue_url ` set (candidates m repo (gh s))"
    by simp
  obtain r3 s3 where lp: "label_prs m repo prs [] s2 = (r3, s3)"
    by (cases "label_prs m repo prs [] s2")
  from label_prs_exact[OF lp fp]
  have r3: "r3 = Inr (if dry_run m then [] else brs)"
    and w3: "gh s3 = relabel (if dry_run m then {} else issue_url ` set (candidates m repo (gh s))) (gh s)"
    and l3: "logs s3 = logs s2 @ map (\<lambda>p. LogApplying (pr_number p) (repo_name repo)) prs"
    by (simp_all add: b t w2)
  let ?s4 = "log_info (LogBranchesLabeled (repo_name repo) (if dry_run m then [] else brs)) s3"
  have "label_repos m (repo # rest) s = label_repos m rest ?s4"
    unfolding label_repos.simps using g lp r3 by (simp add: get_branches_totalCount_def)
  moreover have "gh ?s4 = relabel (if dry_run m then {} else issue_url ` set (candidates m repo (gh s))) (gh s)"
    using w3 by simp
  moreover have "logs ?s4 = logs s @ [LogProcessing (repo_name repo),
                 LogTotalBranches (repo_name repo)
                   (length (filter (is_branch_of (full_name repo)) (git_refs (gh s)))),
                 LogGetting (repo_name repo)]
               @ map (\<lambda>p. LogApplying (pr_number p) (repo_name repo)) prs
               @ [LogBranchesLabeled (repo_name repo) (if dry_run m then [] else brs)]"
    using l3 l2 by simp
  ultimately show ?thesis by blast
qed

section \<open>Two runs of the label driver from worlds that differ in labels only\<close>

lemma candidates_unprotected:
  assumes "wf_world w" "i \<in> set (issues w)" "issue_url i \<in> issue_url ` set (candidates m repo w)"
  shows "\<not> protected i"
proof -
  from assms(3) obtain x where x: "x \<in> set (candidates m repo w)" "issue_url i = issue_url x"
    by auto
  from assms(1,2) candidates_D(1)[OF x(1)] x(2) have "i = x" by (rule wf_world_same)
  with candidates_D(5)[OF x(1)] show ?thesis by simp
qed

lemma lsim_candidate_urls:
  assumes "lsim w w'"
  shows "issue_url ` set (candidates m repo w') = issue_url ` set (candidates m repo w)"
proof -
  from lsim_candidates[OF assms]
  have "map issue_url (candidates m repo w') = map issue_url (candidates m repo w)"
    by (rule map_unlabel_urls)
  then have "set (map issue_url (candidates m repo w')) = set (map issue_url (candidates m repo w))"
    by simp
  then show ?thesis by simp
qed

lemma lsim_targets: "lsim w w' \<Longrightarrow> targets m rs w' = targets m rs w"
  by (simp add: targets_def lsim_candidate_urls)

lemma targets_Cons:
  "targets m (repo # rest) w = issue_url ` set (candidates m repo w) \<union> targets m rest w"
  by (simp add: targets_def)

lemma targets_unprotected:
  assumes "wf_world w" "i \<in> set (issues w)" "issue_url i \<in> targets m rs w"
  shows "\<not> protected i"
  using assms by (auto simp: targets_def dest: candidates_unprotected)

lemma lsim_git_refs: "lsim w w' \<Longrightarrow> git_refs w' = git_refs w"
  by (simp add: lsim_def)

lemma blank_simps [simp]:
  "blank d (LogProcessing n) = LogProcessing n"
  "blank d (LogTotalBranches n k) = LogTotalBranches n k"
  "blank d (LogGetting n) = LogGetting n"
  "blank d (LogApplying k n) = LogApplying k n"
  "blank d (LogBranchesLabeled n bs) = LogBranchesLabeled n (if d then [] else bs)"
  by (simp_all add: blank_def)

lemma blank_applying [simp]:
  "map (blank d) (map (\<lambda>p. LogApplying (pr_number p) n) prs) = map (\<lambda>p. LogApplying (pr_number p) n) prs"
  by (simp add: comp_def)

lemma label_repos_sim:
  assumes "lsim (gh s1) (gh s2)" and "wf_world (gh s1)" and "end_date m1 = end_date m2"
    and "label_repos m1 rs s1 = (r1, s1')" and "label_repos m2 rs s2 = (r2, s2')"
  shows "r1 = r2
       \<and> (\<exists>U ls1 ls2.
            gh s1' = relabel (if dry_run m1 then {} else U) (gh s1)
          \<and> gh s2' = relabel (if dry_run m2 then {} else U) (gh s2)
          \<and> U \<subseteq> targets m1 rs (gh s1)
          \<and> (r1 = Inr () \<longrightarrow> U = targets m1 rs (gh s1))
          \<and> logs s1' = logs s1 @ ls1 \<and> logs s2' = logs s2 @ ls2
          \<and> map (blank (dry_run m2)) ls1 = map (blank (dry_run m1)) ls2)"
  using assms
proof (induction rs arbitrary: s1 s2)
  case Nil
  then have "r1 = r2" "gh s1' = relabel (if dry_run m1 then {} else {}) (gh s1)"
    "gh s2' = relabel (if dry_run m2 then {} else {}) (gh s2)"
    "{} \<subseteq> targets m1 [] (gh s1)" "r1 = Inr () \<longrightarrow> {} = targets m1 [] (gh s1)"
    "logs s1' = logs s1 @ []" "logs s2' = logs s2 @ []"
    "map (blank (dry_run m2)) [] = map (blank (dry_run m1)) ([]::log_record list)"
    by (auto simp: targets_def)
  then show ?case by blast
next
  case (Cons repo rest)
  note sim = Cons.prems(1) and wf1 = Cons.prems(2) and ed = Cons.prems(3)
  from sim have sim': "lsim (gh s2) (gh s1)" by (rule lsim_sym)
  from sim wf1 have wf2: "wf_world (gh s2)" by (rule lsim_wf)
  let ?T = "issue_url ` set (candidates m1 repo (gh s1))"
  have T2: "issue_url ` set (candidates m2 repo (gh s2)) = ?T"
    using lsim_candidate_urls[OF sim, of m2 repo] candidates_end_date[OF ed, of repo "gh s1"]
    by simp
  let ?k = "length (filter (is_branch_of (full_name repo)) (git_refs (gh s1)))"
  have k2: "length (filter (is_branch_of (full_name repo)) (git_refs (gh s2))) = ?k"
    using lsim_git_refs[OF sim] by simp
  let ?A = "[LogProcessing (repo_name repo), LogTotalBranches (repo_name repo) ?k,
             LogGetting (repo_name repo)]"
  have feq: "fst (get_prs_branches_to_be_deleted m1 repo s1)
           = fst (get_prs_branches_to_be_deleted m2 repo s2)"
    using sim ed by (rule lsim_get_prs)
  show ?case
  proof (cases "fst (get_prs_branches_to_be_deleted m1 repo s1)")
    case (Inl e)
    from label_repos_Cons_Inl[OF Inl, of rest] Cons.prems(4)
    have 1: "r1 = Inl e" "gh s1' = gh s1" "logs s1' = logs s1 @ ?A" by auto
    from Inl feq have "fst (get_prs_branches_to_be_deleted m2 repo s2) = Inl e" by simp
    from label_repos_Cons_Inl[OF this, of rest] Cons.prems(5) k2
    have 2: "r2 = Inl e" "gh s2' = gh s2" "logs s2' = logs s2 @ ?A" by auto
    from 1 2 have "r1 = r2" "gh s1' = relabel (if dry_run m1 then {} else {}) (gh s1)"
      "gh s2' = relabel (if dry_run m2 then {} else {}) (gh s2)"
      "{} \<subseteq> targets m1 (repo # rest) (gh s1)"
      "r1 = Inr () \<longrightarrow> {} = targets m1 (repo # rest) (gh s1)"
      "logs s1' = logs s1 @ ?A" "logs s2' = logs s2 @ ?A"
      "map (blank (dry_run m2)) ?A = map (blank (dry_run m1)) ?A"
      by simp_all
    then show ?thesis by blast
  next
    case (Inr pb)
    obtain prs brs where pb: "pb = (prs, brs)" by (cases pb)
    let ?B = "\<lambda>d. ?A @ map (\<lambda>p. LogApplying (pr_number p) (repo_name repo)) prs
               @ [LogBranchesLabeled (repo_name repo) (if d then [] else brs)]"
    from Inr pb have f1: "fst (get_prs_branches_to_be_deleted m1 repo s1) = Inr (prs, brs)" by simp
    with feq have f2: "fst (get_prs_branches_to_be_deleted m2 repo s2) = Inr (prs, brs)" by simp
    from label_repos_Cons_Inr[OF f1, of rest] Cons.prems(4) obtain s14 where
      s14: "label_repos m1 rest s14 = (r1, s1')"
           "gh s14 = relabel (if dry_run m1 then {} else ?T) (gh s1)"
           "logs s14 = logs s1 @ ?B (dry_run m1)" by auto
    from label_repos_Cons_Inr[OF f2, of rest] Cons.prems(5) T2 k2 obtain s24 where
      s24: "label_repos m2 rest s24 = (r2, s2')"
           "gh s24 = relabel (if dry_run m2 then {} else ?T) (gh s2)"
           "logs s24 = logs s2 @ ?B (dry_run m2)" by auto
    have l1: "lsim (gh s1) (gh s14)" unfolding s14(2)
    proof (rule lsim_relabel)
      fix i assume "i \<in> set (issues (gh s1))" "issue_url i \<in> (if dry_run m1 then {} else ?T)"
      then have "issue_url i \<in> ?T" by (simp split: if_splits)
      with wf1 \<open>i \<in> set (issues (gh s1))\<close> show "\<not> protected i" by (rule candidates_unprotected)
    qed
    have l2: "lsim (gh s2) (gh s24)" unfolding s24(2)
    proof (rule lsim_relabel)
      fix i assume i: "i \<in> set (issues (gh s2))" "issue_url i \<in> (if dry_run m2 then {} else ?T)"
      then have "issue_url i \<in> issue_url ` set (candidates m2 repo (gh s2))"
        by (simp add: T2 split: if_splits)
      with wf2 i(1) show "\<not> protected i" by (rule candidates_unprotected)
    qed
    from l1 sim l2 have sim4: "lsim (gh s14) (gh s24)"
      by (blast intro: lsim_sym lsim_trans)
    from l1 wf1 have wf4: "wf_world (gh s14)" by (rule lsim_wf)
    from Cons.IH[OF sim4 wf4 ed s14(1) s24(1)] obtain U ls1 ls2 where
      ih: "r1 = r2" "gh s1' = relabel (if dry_run m1 then {} else U) (gh s14)"
          "gh s2' = relabel (if dry_run m2 then {} else U) (gh s24)"
          "U \<subseteq> targets m1 rest (gh s14)"
          "r1 = Inr () \<longrightarrow> U = targets m1 rest (gh s14)"
          "logs s1' = logs s14 @ ls1" "logs s2' = logs s24 @ ls2"
          "map (blank (dry_run m2)) ls1 = map (blank (dry_run m1)) ls2" by blast
    have tr: "targets m1 rest (gh s14) = targets m1 rest (gh s1)"
      using l1 by (rule lsim_targets)
    have "gh s1' = relabel (if dry_run m1 then {} else ?T \<union> U) (gh s1)"
      using ih(2) s14(2) by (simp add: relabel_relabel)
    moreover have "gh s2' = relabel (if dry_run m2 then {} else ?T \<union> U) (gh s2)"
      using ih(3) s24(2) by (simp add: relabel_relabel)
    moreover have "?T \<union> U \<subseteq> targets m1 (repo # rest) (gh s1)"
      using ih(4) tr by (auto simp: targets_Cons)
    moreover have "r1 = Inr () \<longrightarrow> ?T \<union> U = targets m1 (repo # rest) (gh s1)"
      using ih(5) tr by (simp add: targets_Cons)
    moreover have "logs s1' = logs s1 @ (?B (dry_run m1) @ ls1)"
      using ih(6) s14(3) by simp
    moreover have "logs s2' = logs s2 @ (?B (dry_run m2) @ ls2)"
      using ih(7) s24(3) by simp
    moreover have "map (blank (dry_run m2)) (?B (dry_run m1) @ ls1)
        = map (blank (dry_run m1)) (?B (dry_run m2) @ ls2)"
      using ih(8) by simp
    ultimately show ?thesis using ih(1) by blast
  qed
qed

lemma label_stale_branches_unfold:
  "label_stale_branches m s = label_repos m (org_repos (gh s)) (called GetRepos s)"
  by (simp add: label_stale_branches_def get_repos_def)

lemma lsim_relabel_targets:
  assumes "wf_world w" "U \<subseteq> targets m rs w"
  shows "lsim w (relabel (if d then {} else U) w)"
proof (rule lsim_relabel)
  fix i assume i: "i \<in> set (issues w)" "issue_url i \<in> (if d then {} else U)"
  with assms(2) have "issue_url i \<in> targets m rs w" by (auto split: if_splits)
  with assms(1) i(1) show "\<not> protected i" by (rule targets_unprotected)
qed

text \<open>
  C6.  The label driver is idempotent: when it is run and then run again on the state
  the first run left, the second run ends as the first did and leaves the world, and
  with it the labels of every pull request, as the first run left them.  Putting the
  pending label on an issue that already has exactly it changes nothing.
\<close>

theorem label_driver_idempotent:
  assumes "wf_world (gh s)"
    and "label_stale_branches m s = (r1, s1)"
    and "label_stale_branches m s1 = (r2, s2)"
  shows "gh s2 = gh s1 \<and> map labels (issues (gh s2)) = map labels (issues (gh s1)) \<and> r2 = r1
       \<and> put_labels u [pending_label] (put_labels u [pending_label] w)
           = put_labels u [pending_label] w"
proof -
  let ?R = "org_repos (gh s)"
  from assms(2) have run1: "label_repos m ?R (called GetRepos s) = (r1, s1)"
    by (simp add: label_stale_branches_unfold)
  have wf0: "wf_world (gh (called GetRepos s))" using assms(1) by simp
  from label_repos_sim[OF lsim_refl wf0 refl run1 run1] obtain U where
    U0: "gh s1 = relabel (if dry_run m then {} else U) (gh (called GetRepos s))"
        "U \<subseteq> targets m ?R (gh (called GetRepos s))"
    by blast
  then have U: "gh s1 = relabel (if dry_run m then {} else U) (gh s)" "U \<subseteq> targets m ?R (gh s)"
    by simp_all
  from assms(1) U(2) have l: "lsim (gh s) (gh s1)" unfolding U(1) by (rule lsim_relabel_targets)
  then have wf1: "wf_world (gh s1)" using assms(1) by (rule lsim_wf)
  from U(1) have "org_repos (gh s1) = ?R" by simp
  with assms(3) have run2: "label_repos m ?R (called GetRepos s1) = (r2, s2)"
    by (simp add: label_stale_branches_unfold)
  from l have l': "lsim (gh (called GetRepos s1)) (gh (called GetRepos s))"
    by (simp add: lsim_sym)
  have wf1': "wf_world (gh (called GetRepos s1))" using wf1 by simp
  from label_repos_sim[OF l' wf1' refl run2 run1] obtain V where
    V0: "r2 = r1" "gh s2 = relabel (if dry_run m then {} else V) (gh (called GetRepos s1))"
       "gh s1 = relabel (if dry_run m then {} else V) (gh (called GetRepos s))"
    by blast
  then have V: "r2 = r1" "gh s2 = relabel (if dry_run m then {} else V) (gh s1)"
       "gh s1 = relabel (if dry_run m then {} else V) (gh s)"
    by simp_all
  define X where "X = (if dry_run m then {} else V)"
  have v2: "gh s2 = relabel X (gh s1)" and v3: "gh s1 = relabel X (gh s)"
    unfolding X_def by (fact V(2) V(3))+
  have "relabel X (relabel X (gh s)) = relabel X (gh s)" by (simp add: relabel_relabel)
  with v3 have "relabel X (gh s1) = gh s1" by metis
  with v2 have g: "gh s2 = gh s1" by (rule trans)
  then have ml: "map labels (issues (gh s2)) = map labels (issues (gh s1))" by simp
  have p: "put_labels u [pending_label] (put_labels u [pending_label] w)
           = put_labels u [pending_label] w"
    by (simp add: put_labels_relabel relabel_relabel)
  show ?thesis by (intro conjI) (fact g ml V(1) p)+
qed

theorem label_driver_idempotent_witness:
  "wf_world (gh scenario_state)
   \<and> fst (label_stale_branches (scenario_manager False) scenario_state) = Inr ()
   \<and> fst (label_stale_branches (scenario_manager False)
            (snd (label_stale_branches (scenario_manager False) scenario_state)))
       = fst (label_stale_branches (scenario_manager False) scenario_state)
   \<and> gh (snd (label_stale_branches (scenario_manager False)
            (snd (label_stale_branches (scenario_manager False) scenario_state))))
       = gh (snd (label_stale_branches (scenario_manager False) scenario_state))
   \<and> map labels (issues (gh (snd (label_stale_branches (scenario_manager False) scenario_state))))
       = [[pending_label], [''do-not-delete''], [pending_label], [], [pending_label]]"
proof -
  let ?X = "label_stale_branches (scenario_manager False) scenario_state"
  let ?Y = "label_stale_branches (scenario_manager False) (snd ?X)"
  have wf: "wf_world (gh scenario_state)"
    by (simp add: wf_world_def issue_url_def scenario_defs)
  have x: "?X = (fst ?X, snd ?X)" and y: "?Y = (fst ?Y, snd ?Y)" by simp_all
  have f: "fst ?X = Inr ()" by code_simp
  have l: "map labels (issues (gh (snd ?X)))
       = [[pending_label], [''do-not-delete''], [pending_label], [], [pending_label]]"
    by code_simp
  note t = label_driver_idempotent[OF wf x y]
  from t have g: "gh (snd ?Y) = gh (snd ?X)" by (rule conjunct1)
  from t have r: "fst ?Y = fst ?X" by blast
  show ?thesis by (intro conjI) (fact wf f r g l)+
qed

text \<open>
  C10.  A run of the label driver that is not a dry run and completes leaves every
  candidate pull request of every repository with exactly the one label
  \<open>will-be-deleted-within-a-week\<close>: the labels the pull request had before are gone.
  All other issues keep their labels.  A single label application of the driver's label
  replaces the label list of the issue it addresses by that one label, and every label
  application the run issues carries exactly that label.
\<close>

theorem labelling_replaces_labels:
  assumes "wf_world (gh s)" and "\<not> dry_run m"
    and "label_stale_branches m s = (Inr (), s')"
  shows "gh s' = relabel (targets m (org_repos (gh s)) (gh s)) (gh s)
       \<and> (\<forall>repo \<in> set (org_repos (gh s)). \<forall>x \<in> set (candidates m repo (gh s)).
            \<forall>i \<in> set (issues (gh s')). issue_url i = issue_url x
              \<longrightarrow> labels i = [''will-be-deleted-within-a-week''])
       \<and> (\<forall>i \<in> set (issues (put_labels u [pending_label] w)).
            issue_url i = u \<longrightarrow> labels i = [''will-be-deleted-within-a-week''])
       \<and> (\<exists>cs. calls s' = calls s @ cs
             \<and> list_all (\<lambda>c. mutating c
                    \<longrightarrow> (\<exists>fn n. c = SetLabels fn n [''will-be-deleted-within-a-week''])) cs)"
proof (intro conjI ballI impI)
  let ?R = "org_repos (gh s)"
  let ?s0 = "called GetRepos s"
  from assms(3) have run: "label_repos m ?R ?s0 = (Inr (), s')"
    by (simp add: label_stale_branches_unfold)
  have wf0: "wf_world (gh ?s0)" using assms(1) by simp
  from label_repos_sim[OF lsim_refl wf0 refl run run] obtain U where
    U: "gh s' = relabel (if dry_run m then {} else U) (gh ?s0)"
       "(Inr () :: error + unit) = Inr () \<longrightarrow> U = targets m ?R (gh ?s0)"
    by blast
  from U(2) have "U = targets m ?R (gh s)" by simp
  with U(1) assms(2) show w: "gh s' = relabel (targets m ?R (gh s)) (gh s)" by simp
  fix repo x i
  assume repo: "repo \<in> set ?R" and x: "x \<in> set (candidates m repo (gh s))"
    and i: "i \<in> set (issues (gh s'))" and u: "issue_url i = issue_url x"
  let ?T = "targets m ?R (gh s)"
  let ?f = "\<lambda>j. if issue_url j \<in> ?T then j\<lparr>labels := [pending_label]\<rparr> else j"
  from x have "issue_url x \<in> issue_url ` set (candidates m repo (gh s))" by (rule imageI)
  with repo have t: "issue_url x \<in> ?T" unfolding targets_def by (rule UN_I)
  have "issues (gh s') = map ?f (issues (gh s))" by (simp add: w relabel_def)
  with i have "i \<in> ?f ` set (issues (gh s))" by simp
  then obtain j where j: "i = ?f j" by (rule imageE)
  have fu: "issue_url (?f j) = issue_url j" by (simp add: issue_url_def)
  from j fu have ij: "issue_url i = issue_url j" by (rule ssubst)
  from ij u have "issue_url j = issue_url x" by (rule trans[OF sym])
  with t have "issue_url j \<in> ?T" by (rule ssubst[where P="\<lambda>v. v \<in> ?T", rotated])
  then have "?f j = j\<lparr>labels := [pending_label]\<rparr>" by (rule if_P)
  with j have "i = j\<lparr>labels := [pending_label]\<rparr>" by (rule trans)
  then show "labels i = [''will-be-deleted-within-a-week'']" by (simp add: pending_label_def)
next
  fix i
  assume i: "i \<in> set (issues (put_labels u [pending_label] w))" and iu: "issue_url i = u"
  let ?g = "\<lambda>j. if issue_url j = u then j\<lparr>labels := [pending_label]\<rparr> else j"
  have "issues (put_labels u [pending_label] w) = map ?g (issues w)" by (simp add: put_labels_def)
  with i have "i \<in> ?g ` set (issues w)" by simp
  then obtain j where j: "i = ?g j" by (rule imageE)
  have "issue_url (?g j) = issue_url j" by (simp add: issue_url_def)
  with j have ij: "issue_url i = issue_url j" by (rule ssubst)
  from ij iu have "issue_url j = u" by (rule trans[OF sym])
  then have "?g j = j\<lparr>labels := [pending_label]\<rparr>" by (rule if_P)
  with j have "i = j\<lparr>labels := [pending_label]\<rparr>" by (rule trans)
  then show "labels i = [''will-be-deleted-within-a-week'']" by (simp add: pending_label_def)
next
  from label_stale_branches_grows[OF assms(3)] obtain cs where
    cs: "calls s' = calls s @ cs" "list_all (label_driver_call m) cs"
    unfolding grows_def by blast
  have "\<exists>fn n. c = SetLabels fn n [''will-be-deleted-within-a-week'']"
    if "c \<in> set cs" "mutating c" for c
  proof -
    from cs(2) that(1) have "label_driver_call m c" by (simp add: list_all_iff)
    from label_driver_call_mutating[OF this that(2)] show ?thesis
      by (simp only: pending_label_def)
  qed
  then have "list_all (\<lambda>c. mutating c
                    \<longrightarrow> (\<exists>fn n. c = SetLabels fn n [''will-be-deleted-within-a-week''])) cs"
    unfolding list_all_iff by blast
  with cs(1) show "\<exists>cs. calls s' = calls s @ cs
             \<and> list_all (\<lambda>c. mutating c
                    \<longrightarrow> (\<exists>fn n. c = SetLabels fn n [''will-be-deleted-within-a-week''])) cs"
    by blast
qed

theorem labelling_replaces_labels_witness:
  "wf_world (gh scenario_state) \<and> \<not> dry_run (scenario_manager False)
   \<and> fst (label_stale_branches (scenario_manager False) scenario_state) = Inr ()
   \<and> labels pr1 = [''bug'']
   \<and> pr1 \<in> set (candidates (scenario_manager False) app_repo (gh scenario_state))
   \<and> issues (gh (snd (label_stale_branches (scenario_manager False) scenario_state)))
       = [pr1\<lparr>labels := [''will-be-deleted-within-a-week'']\<rparr>, pr2,
          pr3\<lparr>labels := [''will-be-deleted-within-a-week'']\<rparr>, pr4,
          pr5\<lparr>labels := [''will-be-deleted-within-a-week'']\<rparr>]
   \<and> gh (snd (label_stale_branches (scenario_manager False) scenario_state))
       = relabel (targets (scenario_manager False) (org_repos (gh scenario_state)) (gh scenario_state))
           (gh scenario_state)"
proof -
  let ?X = "label_stale_branches (scenario_manager False) scenario_state"
  have wf: "wf_world (gh scenario_state)"
    by (simp add: wf_world_def issue_url_def scenario_defs)
  have d: "\<not> dry_run (scenario_manager False)" by (simp add: scenario_manager_def)
  have f: "fst ?X = Inr ()" by code_simp
  then have x: "?X = (Inr (), snd ?X)" by (metis prod.collapse)
  have l: "labels pr1 = [''bug'']" by (simp add: pr1_def)
  have c: "pr1 \<in> set (candidates (scenario_manager False) app_repo (gh scenario_state))"
    by code_simp
  have i: "issues (gh (snd ?X))
       = [pr1\<lparr>labels := [''will-be-deleted-within-a-week'']\<rparr>, pr2,
          pr3\<lparr>labels := [''will-be-deleted-within-a-week'']\<rparr>, pr4,
          pr5\<lparr>labels := [''will-be-deleted-within-a-week'']\<rparr>]"
    by code_simp
  from labelling_replaces_labels[OF wf d x]
  have g: "gh (snd ?X) = relabel (targets (scenario_manager False) (org_repos (gh scenario_state))
             (gh scenario_state)) (gh scenario_state)"
    by (rule conjunct1)
  show ?thesis by (intro conjI) (fact wf d f l c i g)+
qed

section \<open>Dry runs\<close>











section \<open>The delete driver: a dry run against a real run\<close>














lemma blank_False [simp]: "blank False = (\<lambda>r. r)"
  by (rule ext) (simp add: blank_def)

lemma blank_True [simp]: "blank True = summary_emptied"
  by (rule ext) (simp add: blank_def)




end
